theory Spec2Isabelle
  imports Main "HOL-Library.Char_ord" "HOL-Library.List_Lexorder" "HOL-Library.AList"
begin

section \<open>Strings and dictionaries\<close>

text \<open>
  Python strings are modelled as \<^typ>\<open>string\<close>, lists of 8-bit characters; they are
  compared as Python compares them, lexicographically by character code. A \<open>dict\<close> whose iteration order matters is an
  association list in insertion order with distinct keys; a \<open>dict\<close> that is only looked up
  is a map. Exceptions are values of type \<open>error\<close>.
\<close>

datatype error = KeyError | IndexError | JSONDecodeError | TypeError | UnexpectedError

text \<open>\<open>str.lower()\<close> on the ASCII letters.\<close>

definition lower_char :: "char \<Rightarrow> char" where
  "lower_char c =
     (if CHR ''A'' \<le> c \<and> c \<le> CHR ''Z'' then char_of (of_char c + (32::nat)) else c)"

definition lower :: "string \<Rightarrow> string" where
  "lower s = map lower_char s"

fun startswith :: "string \<Rightarrow> string \<Rightarrow> bool" where
  "startswith s [] = True"
| "startswith [] (p # ps) = False"
| "startswith (c # cs) (p # ps) = (c = p \<and> startswith cs ps)"

text \<open>\<open>needle in haystack\<close> on strings: the substring test.\<close>

fun str_in :: "string \<Rightarrow> string \<Rightarrow> bool" where
  "str_in needle [] = (needle = [])"
| "str_in needle (c # cs) = (startswith (c # cs) needle \<or> str_in needle cs)"

text \<open>\<open>d.get(k, default)\<close>.\<close>

definition dict_get :: "('k \<rightharpoonup> 'v) \<Rightarrow> 'k \<Rightarrow> 'v \<Rightarrow> 'v" where
  "dict_get d k dflt = (case d k of None \<Rightarrow> dflt | Some v \<Rightarrow> v)"

section \<open>detect\_push\_providers.py\<close>

definition is_push_related :: "string \<Rightarrow> bool" where
  "is_push_related content =
    (let c = lower content in
     if str_in ''addEventListener'' c \<and> str_in ''push'' c then True
     else if str_in ''pushmanager'' c then True
     else if str_in ''pushsubscription'' c \<or> str_in ''push subscription'' c then True
     else if str_in ''shownotification'' c then True
     else if str_in ''notificationclick'' c then True
     else if str_in ''pushevent'' c then True
     else False)"

section \<open>compare\_ssdeep.py: all-pairs comparison\<close>

text \<open>
  \<open>ssdeep.compare\<close> is a library function: it is the parameter \<open>cmp\<close>.
  \<open>combinations2\<close> is \<open>itertools.combinations(paths, 2)\<close>.
\<close>

record pair =
  file_a :: string
  file_b :: string
  score :: int
  urls_a :: "string list"
  urls_b :: "string list"

fun combinations2 :: "'a list \<Rightarrow> ('a \<times> 'a) list" where
  "combinations2 [] = []"
| "combinations2 (x # xs) = map (\<lambda>y. (x, y)) xs @ combinations2 xs"

text \<open>
  The loop of \<open>compare_hashes\<close> over the combinations, \<open>pairs\<close> being the list built so
  far. The subscript \<open>path_to_hash[path]\<close> raises \<open>KeyError\<close> on a missing key.
\<close>

fun compare_loop ::
  "(string \<Rightarrow> string \<Rightarrow> int) \<Rightarrow> (string \<times> string) list \<Rightarrow> (string \<rightharpoonup> string list) \<Rightarrow> int
     \<Rightarrow> (string \<times> string) list \<Rightarrow> pair list \<Rightarrow> error + pair list" where
  "compare_loop cmp path_to_hash path_to_urls threshold [] pairs = Inr pairs"
| "compare_loop cmp path_to_hash path_to_urls threshold ((path_a, path_b) # rest) pairs =
    (case map_of path_to_hash path_a of
       None \<Rightarrow> Inl KeyError
     | Some hash_a \<Rightarrow>
        (case map_of path_to_hash path_b of
           None \<Rightarrow> Inl KeyError
         | Some hash_b \<Rightarrow>
            (let score = cmp hash_a hash_b in
             compare_loop cmp path_to_hash path_to_urls threshold rest
               (if score \<ge> threshold
                then pairs @ [\<lparr>file_a = path_a, file_b = path_b, score = score,
                               urls_a = dict_get path_to_urls path_a [],
                               urls_b = dict_get path_to_urls path_b []\<rparr>]
                else pairs))))"

definition compare_hashes ::
  "(string \<Rightarrow> string \<Rightarrow> int) \<Rightarrow> (string \<times> string) list \<Rightarrow> (string \<rightharpoonup> string list) \<Rightarrow> int
     \<Rightarrow> error + pair list" where
  "compare_hashes cmp path_to_hash path_to_urls threshold =
     (let paths = map fst path_to_hash in
      compare_loop cmp path_to_hash path_to_urls threshold (combinations2 paths) [])"

text \<open>
  The entry \<open>compare_hashes\<close> makes for a pair of keys, and the test that retains it; they
  serve to state what the loop computes.
\<close>

definition mk_pair :: "(string \<Rightarrow> string \<Rightarrow> int) \<Rightarrow> (string \<times> string) list \<Rightarrow> (string \<rightharpoonup> string list) \<Rightarrow> string \<times> string \<Rightarrow> pair" where
  "mk_pair cmp h u ab = \<lparr>file_a = fst ab, file_b = snd ab,
       score = cmp (the (map_of h (fst ab))) (the (map_of h (snd ab))),
       urls_a = dict_get u (fst ab) [], urls_b = dict_get u (snd ab) []\<rparr>"

definition retained :: "(string \<Rightarrow> string \<Rightarrow> int) \<Rightarrow> (string \<times> string) list \<Rightarrow> int \<Rightarrow> string \<times> string \<Rightarrow> bool" where
  "retained cmp h t ab = (t \<le> cmp (the (map_of h (fst ab))) (the (map_of h (snd ab))))"

section \<open>crawl\_service\_workers.py\<close>

text \<open>
  \<open>crawled_index\<close> is a \<open>dict\<close> from URL to slot or \<open>None\<close> (JSON \<open>null\<close>, the
  failure sentinel), kept in insertion order; \<open>crawled_index[url] = v\<close> is
  \<^const>\<open>AList.update\<close>, which replaces the value of a present key in place and appends a
  new key at the end.
\<close>

type_synonym index = "(string \<times> nat option) list"

text \<open>
  The index file \<open>unknown-providers-index.json\<close>: missing, opened for writing and not yet
  completely written (\<open>open(index_path, "w")\<close> empties the file at once), or holding the
  dump of an index.
\<close>

datatype disk_index = Absent | Truncated | Stored index

datatype crawl_result = SUCCESS | ALREADY_CRAWLED | FAIL

text \<open>What \<open>requests.get(url, timeout=5)\<close> does is a parameter of the model.\<close>

datatype response = Status200 string | StatusOther | RequestException | OtherException

text \<open>
  The variables \<open>crawled_index\<close> and \<open>count\<close> of \<open>download_with_record\<close>, the files
  \<open>{slot}.js\<close> under \<open>out_path\<close> (by slot), and the index file.
\<close>

record crawl_state =
  crawled_index :: index
  count :: nat
  out_files :: "(nat \<times> string) list"
  index_file :: disk_index

text \<open>
  The \<open>try\<close> block at the head of \<open>download_with_record\<close>: a missing file gives the empty
  index (\<open>FileNotFoundError\<close> is caught); a file that is not complete JSON makes
  \<open>json.load\<close> raise, and nothing catches that.
\<close>

definition json_load :: "disk_index \<Rightarrow> error + index" where
  "json_load f = (case f of Absent \<Rightarrow> Inr [] | Truncated \<Rightarrow> Inl JSONDecodeError | Stored idx \<Rightarrow> Inr idx)"

text \<open>
  The two steps of \<open>with open(index_path, "w") as f: json.dump(crawled_index, f, indent=2)\<close>.
\<close>

definition open_w :: "crawl_state \<Rightarrow> crawl_state" where
  "open_w s = s\<lparr>index_file := Truncated\<rparr>"

definition json_dump :: "crawl_state \<Rightarrow> crawl_state" where
  "json_dump s = s\<lparr>index_file := Stored (crawled_index s)\<rparr>"

definition fetch_url :: "string \<Rightarrow> index \<Rightarrow> response \<Rightarrow> error + crawl_result \<times> string option" where
  "fetch_url url idx resp =
     (if url \<in> fst ` set idx then Inr (ALREADY_CRAWLED, None)
      else case resp of
             Status200 body \<Rightarrow> Inr (SUCCESS, Some body)
           | StatusOther \<Rightarrow> Inr (FAIL, None)
           | RequestException \<Rightarrow> Inr (FAIL, None)
           | OtherException \<Rightarrow> Inl UnexpectedError)"

text \<open>
  \<open>process_result\<close> returns the exception it raises, if any, and the state it leaves.
  File operations succeed, except that \<open>f.write(None)\<close> raises \<open>TypeError\<close> after
  \<open>open(path, "wb")\<close> has created the empty file.
\<close>

definition process_result ::
  "string \<Rightarrow> crawl_result \<Rightarrow> string option \<Rightarrow> crawl_state \<Rightarrow> error option \<times> crawl_state" where
  "process_result url crawl_result content s =
     (if crawl_result = ALREADY_CRAWLED then (None, s)
      else if crawl_result = SUCCESS then
        (case content of
           None \<Rightarrow> (Some TypeError, s\<lparr>out_files := AList.update (count s) [] (out_files s)\<rparr>)
         | Some bytes \<Rightarrow>
             (None, json_dump (open_w
                (s\<lparr>out_files := AList.update (count s) bytes (out_files s),
                   crawled_index := AList.update url (Some (count s)) (crawled_index s),
                   count := count s + 1\<rparr>))))
      else if crawl_result = FAIL then
        (None, json_dump (open_w (s\<lparr>crawled_index := AList.update url None (crawled_index s)\<rparr>)))
      else (None, json_dump (open_w s)))"

text \<open>
  A run is driven by a schedule, a list of events. \<open>Worker i resp\<close>: the pool thread that
  runs the future of the \<open>i\<close>-th outstanding URL executes \<open>fetch_url\<close> now, on the shared
  index as it is at this moment, the network answering \<open>resp\<close>. \<open>Main i\<close>:
  \<open>as_completed\<close> yields that future and the main thread runs the loop body on it.
  An event that cannot happen is skipped: a worker for a future that does not exist or has
  finished, the main thread on a future that has not finished or was yielded before, and
  anything after an exception has left the loop.
\<close>

datatype event = Worker nat response | Main nat

record run_state =
  state :: crawl_state
  finished :: "(nat \<times> (error + crawl_result \<times> string option)) list"
  yielded :: "nat list"
  requested :: "string list"
  raised :: "error option"

text \<open>The body of the \<open>for future in as_completed(...)\<close> loop, with its \<open>try\<close>/\<open>except\<close>.\<close>

definition handle_future ::
  "string \<Rightarrow> error + crawl_result \<times> string option \<Rightarrow> crawl_state \<Rightarrow> error option \<times> crawl_state" where
  "handle_future url res s =
     (case res of
        Inr (crawl_result, content) \<Rightarrow>
          (case process_result url crawl_result content s of
             (None, s1) \<Rightarrow> (None, s1)
           | (Some e, s1) \<Rightarrow> process_result url FAIL None s1)
      | Inl e \<Rightarrow> process_result url FAIL None s)"

fun step :: "string list \<Rightarrow> event \<Rightarrow> run_state \<Rightarrow> run_state" where
  "step urls_to_fetch (Worker i resp) r =
     (if raised r = None \<and> i < length urls_to_fetch \<and> map_of (finished r) i = None then
        (let url = urls_to_fetch ! i in
         r\<lparr>finished := finished r @ [(i, fetch_url url (crawled_index (state r)) resp)],
           requested := (if url \<in> fst ` set (crawled_index (state r)) then requested r
                         else requested r @ [url])\<rparr>)
      else r)"
| "step urls_to_fetch (Main i) r =
     (if raised r = None \<and> i < length urls_to_fetch \<and> i \<notin> set (yielded r) then
        (case map_of (finished r) i of
           None \<Rightarrow> r
         | Some res \<Rightarrow>
             (case handle_future (urls_to_fetch ! i) res (state r) of
                (e, s') \<Rightarrow> r\<lparr>state := s', yielded := yielded r @ [i], raised := e\<rparr>))
      else r)"

definition initial_count :: "index \<Rightarrow> nat" where
  "initial_count idx = length (filter (\<lambda>kv. snd kv \<noteq> None) idx)"

definition urls_to_fetch_of :: "index \<Rightarrow> string list \<Rightarrow> string list" where
  "urls_to_fetch_of idx urls = filter (\<lambda>u. u \<notin> fst ` set idx) urls"

text \<open>
  \<open>download_with_record\<close> gives the state the schedule leads to; the value the Python
  function returns is \<open>count\<close> of that state, once every future has been yielded
  (\<open>all_yielded\<close>).
\<close>

definition download_with_record ::
  "string list \<Rightarrow> event list \<Rightarrow> (nat \<times> string) list \<Rightarrow> disk_index \<Rightarrow> error + run_state" where
  "download_with_record urls events files f =
     (case json_load f of
        Inl e \<Rightarrow> Inl e
      | Inr idx \<Rightarrow>
          Inr (fold (step (urls_to_fetch_of idx urls)) events
                 \<lparr>state = \<lparr>crawled_index = idx, count = initial_count idx,
                            out_files = files, index_file = f\<rparr>,
                  finished = [], yielded = [], requested = [], raised = None\<rparr>))"

definition all_yielded :: "nat \<Rightarrow> run_state \<Rightarrow> bool" where
  "all_yielded n r = list_all (\<lambda>i. i \<in> set (yielded r)) [0..<n]"

text \<open>The non-null values of an index, and the notions the theorems are stated with.\<close>

definition slots :: "index \<Rightarrow> nat list" where
  "slots idx = List.map_filter snd idx"

definition is_success :: "(error + crawl_result \<times> string option) option \<Rightarrow> bool" where
  "is_success res = (case res of Some (Inr (SUCCESS, content)) \<Rightarrow> True | _ \<Rightarrow> False)"

definition new_successes :: "run_state \<Rightarrow> nat" where
  "new_successes r = length (filter (\<lambda>i. is_success (map_of (finished r) i)) (yielded r))"

text \<open>The results \<open>fetch_url\<close> can give for a URL, and the invariants of a run.\<close>

definition fetched :: "string \<Rightarrow> index \<Rightarrow> (error + crawl_result \<times> string option) \<Rightarrow> bool" where
  "fetched url idx res =
     (res = Inl UnexpectedError \<or> res = Inr (FAIL, None) \<or> (\<exists>body. res = Inr (SUCCESS, Some body))
      \<or> (res = Inr (ALREADY_CRAWLED, None) \<and> url \<in> fst ` set idx))"

definition run_inv :: "index \<Rightarrow> string list \<Rightarrow> run_state \<Rightarrow> bool" where
  "run_inv idx0 utf r =
     (raised r = None
      \<and> distinct (map fst (crawled_index (state r)))
      \<and> fst ` set idx0 \<subseteq> fst ` set (crawled_index (state r))
      \<and> (\<forall>ir\<in>set (finished r). fst ir < length utf
             \<and> fetched (utf ! fst ir) (crawled_index (state r)) (snd ir))
      \<and> distinct (map fst (finished r))
      \<and> distinct (yielded r)
      \<and> (\<forall>i\<in>set (yielded r). i < length utf \<and> i \<in> fst ` set (finished r)
             \<and> utf ! i \<in> fst ` set (crawled_index (state r)))
      \<and> json_load (index_file (state r)) = Inr (crawled_index (state r))
      \<and> count (state r) = initial_count idx0 + new_successes r
      \<and> set (requested r) \<subseteq> set utf)"

definition dense :: "index \<Rightarrow> nat \<Rightarrow> bool" where
  "dense idx k = (set (slots idx) = {0..<k} \<and> distinct (slots idx))"

definition recorded :: "index \<Rightarrow> string \<Rightarrow> bool \<Rightarrow> bool" where
  "recorded idx url success =
     (case map_of idx url of
        None \<Rightarrow> False
      | Some None \<Rightarrow> \<not> success
      | Some (Some slot) \<Rightarrow> success)"

definition run_inv_distinct :: "index \<Rightarrow> string list \<Rightarrow> run_state \<Rightarrow> bool" where
  "run_inv_distinct idx0 utf r =
     (fst ` set (crawled_index (state r)) = fst ` set idx0 \<union> (\<lambda>i. utf ! i) ` set (yielded r)
      \<and> (\<forall>ir\<in>set (finished r). snd ir \<noteq> Inr (ALREADY_CRAWLED, None))
      \<and> length (slots (crawled_index (state r))) = count (state r)
      \<and> (dense idx0 (initial_count idx0) \<longrightarrow> dense (crawled_index (state r)) (count (state r)))
      \<and> (\<forall>i\<in>set (yielded r).
            recorded (crawled_index (state r)) (utf ! i) (is_success (map_of (finished r) i))))"

section \<open>compare\_ssdeep.py: clusters and the deduplicated list\<close>

text \<open>
  The \<open>parent\<close> dict of \<open>build_clusters\<close>, in insertion order. \<open>find\<close> and \<open>union\<close>
  are its nested functions (\<open>find_uf\<close>, \<open>union_uf\<close> here); they change \<open>parent\<close>, so the
  model passes it through. A subscript \<open>parent[x]\<close> on a missing key raises
  \<open>KeyError\<close>. The \<open>while\<close> loop of \<open>find\<close> need not end on an arbitrary dict (a cycle
  keeps it running): \<open>find_loop\<close> is a partial function, \<open>None\<close> meaning that the loop
  does not return.
\<close>

type_synonym parent = "(string \<times> string) list"

partial_function (option) find_loop ::
  "parent \<Rightarrow> string \<Rightarrow> string list \<Rightarrow> (error + string \<times> string list) option" where
  "find_loop parent x stack =
     (case map_of parent x of
        None \<Rightarrow> Some (Inl KeyError)
      | Some px \<Rightarrow>
          if px \<noteq> x then find_loop parent px (stack @ [x]) else Some (Inr (x, stack)))"

declare find_loop.simps [code]

definition find_uf :: "string \<Rightarrow> parent \<Rightarrow> (error + string \<times> parent) option" where
  "find_uf x parent =
     (let parent1 = (if x \<notin> fst ` set parent then AList.update x x parent else parent) in
      case find_loop parent1 x [] of
        None \<Rightarrow> None
      | Some (Inl e) \<Rightarrow> Some (Inl e)
      | Some (Inr (root, stack)) \<Rightarrow>
          Some (Inr (root, fold (\<lambda>node p. AList.update node root p) stack parent1)))"

definition union_uf :: "string \<Rightarrow> string \<Rightarrow> parent \<Rightarrow> (error + parent) option" where
  "union_uf x y parent =
     (case find_uf x parent of
        None \<Rightarrow> None
      | Some (Inl e) \<Rightarrow> Some (Inl e)
      | Some (Inr (px, parent1)) \<Rightarrow>
          (case find_uf y parent1 of
             None \<Rightarrow> None
           | Some (Inl e) \<Rightarrow> Some (Inl e)
           | Some (Inr (py, parent2)) \<Rightarrow>
               Some (Inr (if px \<noteq> py then AList.update px py parent2 else parent2))))"

text \<open>The loop \<open>for p in pairs: union(p["file_a"], p["file_b"])\<close>.\<close>

fun union_pairs :: "pair list \<Rightarrow> parent \<Rightarrow> (error + parent) option" where
  "union_pairs [] parent = Some (Inr parent)"
| "union_pairs (p # ps) parent =
     (case union_uf (file_a p) (file_b p) parent of
        None \<Rightarrow> None
      | Some (Inl e) \<Rightarrow> Some (Inl e)
      | Some (Inr parent1) \<Rightarrow> union_pairs ps parent1)"

text \<open>
  The loop \<open>for path in parent\<close> that fills the dict \<open>roots\<close>. \<open>find\<close> changes values of
  \<open>parent\<close> during the iteration, never its keys, so the loop runs over the keys as they
  are at its start.
\<close>

fun collect_roots ::
  "string list \<Rightarrow> parent \<Rightarrow> (string \<times> string list) list
     \<Rightarrow> (error + (string \<times> string list) list) option" where
  "collect_roots [] parent roots = Some (Inr roots)"
| "collect_roots (path # paths) parent roots =
     (case find_uf path parent of
        None \<Rightarrow> None
      | Some (Inl e) \<Rightarrow> Some (Inl e)
      | Some (Inr (r, parent1)) \<Rightarrow>
          (let roots1 = (if r \<notin> fst ` set roots then AList.update r [] roots else roots) in
           case map_of roots1 r of
             None \<Rightarrow> Some (Inl KeyError)
           | Some ms \<Rightarrow> collect_roots paths parent1 (AList.update r (ms @ [path]) roots1)))"

record cluster =
  representative :: string
  members :: "string list"
  urls :: "string list"

text \<open>\<open>list(dict.fromkeys(all_urls))\<close>: duplicates removed, the first occurrence kept.\<close>

definition fromkeys :: "'a list \<Rightarrow> 'a list" where
  "fromkeys xs = fold (\<lambda>k d. if k \<in> set d then d else d @ [k]) xs []"

text \<open>
  The loop over \<open>roots.items()\<close>. Python compares strings by code point, as the order
  on \<^typ>\<open>string\<close> does; \<open>members_sorted[0]\<close> raises \<open>IndexError\<close> on an empty list.
\<close>

fun make_clusters ::
  "(string \<rightharpoonup> string list) \<Rightarrow> (string \<times> string list) list \<Rightarrow> error + cluster list" where
  "make_clusters path_to_urls [] = Inr []"
| "make_clusters path_to_urls ((rep, ms) # rest) =
     (let members_sorted = sort ms in
      case members_sorted of
        [] \<Rightarrow> Inl IndexError
      | first # others \<Rightarrow>
          (let all_urls = concat (map (\<lambda>m. dict_get path_to_urls m []) members_sorted) in
           case make_clusters path_to_urls rest of
             Inl e \<Rightarrow> Inl e
           | Inr clusters \<Rightarrow>
               Inr (\<lparr>representative = first, members = members_sorted,
                      urls = fromkeys all_urls\<rparr> # clusters)))"

definition build_clusters ::
  "pair list \<Rightarrow> (string \<rightharpoonup> string list) \<Rightarrow> (error + cluster list) option" where
  "build_clusters pairs path_to_urls =
     (case union_pairs pairs [] of
        None \<Rightarrow> None
      | Some (Inl e) \<Rightarrow> Some (Inl e)
      | Some (Inr parent) \<Rightarrow>
          (case collect_roots (map fst parent) parent [] of
             None \<Rightarrow> None
           | Some (Inl e) \<Rightarrow> Some (Inl e)
           | Some (Inr roots) \<Rightarrow> Some (make_clusters path_to_urls roots)))"

definition build_deduplicated_list :: "(string \<times> string) list \<Rightarrow> cluster list \<Rightarrow> string list" where
  "build_deduplicated_list path_to_hash clusters =
     (let in_cluster = set (concat (map members clusters));
          dedup = map representative clusters
                  @ filter (\<lambda>path. path \<notin> in_cluster) (sort (map fst path_to_hash))
      in sort dedup)"

text \<open>
  Notions for the theorems. \<open>root_of m x r\<close>: following the parent pointers of \<open>m\<close> from
  \<open>x\<close> ends in the root \<open>r\<close>. A \<open>forest\<close> is a parent dict in which every key has a
  root. \<open>connected pairs\<close> relates two files that are joined by a chain of retained pairs.
\<close>

inductive root_of :: "(string \<rightharpoonup> string) \<Rightarrow> string \<Rightarrow> string \<Rightarrow> bool"
  for m :: "string \<rightharpoonup> string" where
  root: "m x = Some x \<Longrightarrow> root_of m x x"
| link: "m x = Some y \<Longrightarrow> y \<noteq> x \<Longrightarrow> root_of m y r \<Longrightarrow> root_of m x r"

definition forest :: "parent \<Rightarrow> bool" where
  "forest p = (distinct (map fst p) \<and> (\<forall>x\<in>fst ` set p. \<exists>r. root_of (map_of p) x r))"

definition same_root :: "parent \<Rightarrow> (string \<times> string) set" where
  "same_root p = {(x, y). \<exists>r. root_of (map_of p) x r \<and> root_of (map_of p) y r}"

definition edges :: "pair list \<Rightarrow> (string \<times> string) set" where
  "edges pairs = (\<lambda>p. (file_a p, file_b p)) ` set pairs"

definition connected :: "pair list \<Rightarrow> (string \<times> string) set" where
  "connected pairs = (edges pairs \<union> (edges pairs)\<inverse>)\<^sup>+"

text \<open>
  The root as a function, and the grouping loop and the cluster of a group written as pure
  functions; they serve in proofs only.
\<close>

definition rootf :: "parent \<Rightarrow> string \<Rightarrow> string" where
  "rootf p x = (THE r. root_of (map_of p) x r)"

definition add_root ::
  "(string \<Rightarrow> string) \<Rightarrow> string \<Rightarrow> (string \<times> string list) list \<Rightarrow> (string \<times> string list) list" where
  "add_root f path roots =
     AList.update (f path) (dict_get (map_of roots) (f path) [] @ [path]) roots"

definition mk_cluster :: "(string \<rightharpoonup> string list) \<Rightarrow> string \<times> string list \<Rightarrow> cluster" where
  "mk_cluster path_to_urls rm =
     \<lparr>representative = hd (sort (snd rm)), members = sort (snd rm),
      urls = fromkeys (concat (map (\<lambda>m. dict_get path_to_urls m []) (sort (snd rm))))\<rparr>"

section \<open>Theorems: push signatures\<close>

lemma lower_char_not_E: "lower_char c \<noteq> CHR ''E''"
proof (cases "CHR ''A'' \<le> c \<and> c \<le> CHR ''Z''")
  case True
  then have b: "65 \<le> (of_char c :: nat)" "(of_char c :: nat) \<le> 90"
    by (simp_all add: less_eq_char_def)
  have "(of_char (char_of (of_char c + (32::nat))) :: nat) = (of_char c + 32) mod 256"
    by (simp add: of_char_of)
  also have "\<dots> = of_char c + 32" using b by simp
  finally have "(of_char (lower_char c) :: nat) = of_char c + 32"
    using True by (simp add: lower_char_def)
  then have "(of_char (lower_char c) :: nat) \<noteq> of_char (CHR ''E'')" using b by simp
  then show ?thesis by metis
next
  case False
  then have "c \<noteq> CHR ''E''" by (auto simp: less_eq_char_def)
  moreover have "lower_char c = c" using False unfolding lower_char_def by (rule if_not_P)
  ultimately show ?thesis by simp
qed

lemma startswith_set: "startswith s p \<Longrightarrow> set p \<subseteq> set s"
  by (induction s p rule: startswith.induct) auto

lemma str_in_set: "str_in needle s \<Longrightarrow> set needle \<subseteq> set s"
proof (induction s)
  case Nil
  then show ?case by simp
next
  case (Cons c cs)
  from Cons.prems consider "startswith (c # cs) needle" | "str_in needle cs" by auto
  then show ?case
  proof cases
    case 1
    then show ?thesis by (rule startswith_set)
  next
    case 2
    then have "set needle \<subseteq> set cs" by (rule Cons.IH)
    then show ?thesis by auto
  qed
qed

lemma listener_signature_never_matches: "\<not> str_in ''addEventListener'' (lower content)"
proof
  assume "str_in ''addEventListener'' (lower content)"
  then have "set ''addEventListener'' \<subseteq> set (lower content)" by (rule str_in_set)
  then have "CHR ''E'' \<in> set (lower content)" by simp
  then obtain c where "lower_char c = CHR ''E''" unfolding lower_def by auto
  then show False using lower_char_not_E by blast
qed

lemma is_push_related_signatures:
  "is_push_related content \<longleftrightarrow>
     str_in ''pushmanager'' (lower content) \<or> str_in ''pushsubscription'' (lower content)
     \<or> str_in ''push subscription'' (lower content) \<or> str_in ''shownotification'' (lower content)
     \<or> str_in ''notificationclick'' (lower content) \<or> str_in ''pushevent'' (lower content)"
  using listener_signature_never_matches [of content]
  by (simp add: is_push_related_def Let_def)


text \<open>
  Claim C10. The content is lowercased before the signatures are tested, and the first
  signature is the mixed-case literal \<open>addEventListener\<close>, which no lowercased content
  contains (\<open>listener_signature_never_matches\<close>): content with an event-listener
  registration and \<open>push\<close> that shows none of the other signatures is classified as not
  push-related.
\<close>

theorem is_push_related_listener_missed:
  "is_push_related ''self.addEventListener(push, handler)'' = False"
  by code_simp

section \<open>Theorems: all-pairs comparison\<close>

lemma compare_loop_filter:
  "\<forall>ab\<in>set cs. fst ab \<in> fst ` set h \<and> snd ab \<in> fst ` set h \<Longrightarrow>
   compare_loop cmp h u t cs acc = Inr (acc @ map (mk_pair cmp h u) (filter (retained cmp h t) cs))"
proof (induction cs arbitrary: acc)
  case Nil
  then show ?case by simp
next
  case (Cons ab cs)
  obtain a b where ab: "ab = (a, b)" by (cases ab)
  from Cons.prems ab obtain ha hb where ha: "map_of h a = Some ha" and hb: "map_of h b = Some hb"
    by (metis fst_conv snd_conv list.set_intros(1) weak_map_of_SomeI map_of_eq_None_iff not_Some_eq)
  have rest: "\<forall>ab\<in>set cs. fst ab \<in> fst ` set h \<and> snd ab \<in> fst ` set h"
    using Cons.prems by simp
  show ?case
    using Cons.IH [OF rest] ab ha hb
    by (simp add: mk_pair_def retained_def Let_def)
qed

lemma combinations2_subset: "(a, b) \<in> set (combinations2 xs) \<Longrightarrow> a \<in> set xs \<and> b \<in> set xs"
  by (induction xs) auto

lemma combinations2_distinct: "distinct xs \<Longrightarrow> distinct (combinations2 xs)"
proof (induction xs)
  case Nil
  then show ?case by simp
next
  case (Cons x xs)
  have "distinct (map (\<lambda>y. (x, y)) xs)"
    using Cons.prems by (simp add: distinct_map inj_on_def)
  moreover have "set (map (\<lambda>y. (x, y)) xs) \<inter> set (combinations2 xs) = {}"
    using Cons.prems combinations2_subset by fastforce
  ultimately show ?case using Cons by simp
qed

lemma combinations2_irrefl: "distinct xs \<Longrightarrow> (a, b) \<in> set (combinations2 xs) \<Longrightarrow> a \<noteq> b"
  by (induction xs) (auto dest: combinations2_subset)

lemma combinations2_asym:
  "distinct xs \<Longrightarrow> (a, b) \<in> set (combinations2 xs) \<Longrightarrow> (b, a) \<notin> set (combinations2 xs)"
  by (induction xs) (auto dest: combinations2_subset)

lemma combinations2_total:
  "a \<in> set xs \<Longrightarrow> b \<in> set xs \<Longrightarrow> a \<noteq> b \<Longrightarrow>
   (a, b) \<in> set (combinations2 xs) \<or> (b, a) \<in> set (combinations2 xs)"
  by (induction xs) auto

lemma compare_hashes_eq:
  "compare_hashes cmp h u t =
     Inr (map (mk_pair cmp h u) (filter (retained cmp h t) (combinations2 (map fst h))))"
proof -
  have "\<forall>ab\<in>set (combinations2 (map fst h)). fst ab \<in> fst ` set h \<and> snd ab \<in> fst ` set h"
    using combinations2_subset [of _ _ "map fst h"] by auto
  from compare_loop_filter [OF this] show ?thesis
    by (simp add: compare_hashes_def)
qed

text \<open>
  Claim C7. For a digest map (a dict, so its keys are distinct) and an integer threshold,
  \<open>compare_hashes\<close> returns without error. Every unordered pair of distinct hashed files is
  compared, in exactly one orientation (the order of the keys), none skipped. A compared pair
  is in the result if and only if its score is greater than or equal to the threshold, so a
  pair scoring exactly the threshold is included and a pair scoring one below is excluded.
  Every entry of the result is a pair of distinct hashed files carrying its score, and no
  unordered pair is reported twice.
\<close>

theorem compare_hashes_threshold:
  assumes "distinct (map fst path_to_hash)"
  shows "\<exists>pairs. compare_hashes cmp path_to_hash path_to_urls threshold = Inr pairs
    \<and> (\<forall>a b. a \<noteq> b \<and> a \<in> fst ` set path_to_hash \<and> b \<in> fst ` set path_to_hash \<longrightarrow>
          ((a, b) \<in> set (combinations2 (map fst path_to_hash)))
            \<noteq> ((b, a) \<in> set (combinations2 (map fst path_to_hash))))
    \<and> (\<forall>a b ha hb. (a, b) \<in> set (combinations2 (map fst path_to_hash))
          \<and> map_of path_to_hash a = Some ha \<and> map_of path_to_hash b = Some hb \<longrightarrow>
          ((\<exists>p\<in>set pairs. file_a p = a \<and> file_b p = b) \<longleftrightarrow> threshold \<le> cmp ha hb))
    \<and> (\<forall>p\<in>set pairs. \<exists>ha hb. file_a p \<noteq> file_b p
          \<and> map_of path_to_hash (file_a p) = Some ha \<and> map_of path_to_hash (file_b p) = Some hb
          \<and> score p = cmp ha hb \<and> threshold \<le> score p)
    \<and> distinct (map (\<lambda>p. {file_a p, file_b p}) pairs)"
proof -
  let ?C = "combinations2 (map fst path_to_hash)"
  let ?ps = "map (mk_pair cmp path_to_hash path_to_urls) (filter (retained cmp path_to_hash threshold) ?C)"
  have eq: "compare_hashes cmp path_to_hash path_to_urls threshold = Inr ?ps"
    by (rule compare_hashes_eq)
  have c1: "\<forall>a b. a \<noteq> b \<and> a \<in> fst ` set path_to_hash \<and> b \<in> fst ` set path_to_hash \<longrightarrow>
          ((a, b) \<in> set ?C) \<noteq> ((b, a) \<in> set ?C)"
    using combinations2_total [of _ "map fst path_to_hash"] combinations2_asym [OF assms]
    by (metis list.set_map)
  have c2: "\<forall>a b ha hb. (a, b) \<in> set ?C
          \<and> map_of path_to_hash a = Some ha \<and> map_of path_to_hash b = Some hb \<longrightarrow>
          ((\<exists>p\<in>set ?ps. file_a p = a \<and> file_b p = b) \<longleftrightarrow> threshold \<le> cmp ha hb)"
    by (auto simp: mk_pair_def retained_def image_iff)
  have c3: "\<forall>p\<in>set ?ps. \<exists>ha hb. file_a p \<noteq> file_b p
          \<and> map_of path_to_hash (file_a p) = Some ha \<and> map_of path_to_hash (file_b p) = Some hb
          \<and> score p = cmp ha hb \<and> threshold \<le> score p"
  proof
    fix p assume "p \<in> set ?ps"
    then obtain a b where ab: "(a, b) \<in> set ?C" "retained cmp path_to_hash threshold (a, b)"
      and p: "p = mk_pair cmp path_to_hash path_to_urls (a, b)" by auto
    from ab(1) have "a \<in> fst ` set path_to_hash" "b \<in> fst ` set path_to_hash"
      using combinations2_subset [of a b "map fst path_to_hash"] by auto
    then obtain ha hb where "map_of path_to_hash a = Some ha" "map_of path_to_hash b = Some hb"
      by (metis map_of_eq_None_iff not_Some_eq)
    moreover have "a \<noteq> b" using combinations2_irrefl [OF assms ab(1)] .
    ultimately show "\<exists>ha hb. file_a p \<noteq> file_b p
          \<and> map_of path_to_hash (file_a p) = Some ha \<and> map_of path_to_hash (file_b p) = Some hb
          \<and> score p = cmp ha hb \<and> threshold \<le> score p"
      using ab(2) p by (simp add: mk_pair_def retained_def)
  qed
  have c4: "distinct (map (\<lambda>p. {file_a p, file_b p}) ?ps)"
  proof -
    have d: "distinct (filter (retained cmp path_to_hash threshold) ?C)"
      using combinations2_distinct [OF assms] by simp
    have "inj_on (\<lambda>ab. {fst ab, snd ab}) (set ?C)"
    proof (rule inj_onI)
      fix x y assume x: "x \<in> set ?C" and y: "y \<in> set ?C" and e: "{fst x, snd x} = {fst y, snd y}"
      from e have "x = y \<or> (fst x = snd y \<and> snd x = fst y)"
        by (metis doubleton_eq_iff prod.collapse)
      moreover have "(snd x, fst x) \<notin> set ?C"
        using combinations2_asym [OF assms, of "fst x" "snd x"] x by simp
      ultimately show "x = y" using y by (metis prod.collapse)
    qed
    then have "inj_on (\<lambda>ab. {fst ab, snd ab}) (set (filter (retained cmp path_to_hash threshold) ?C))"
      by (rule inj_on_subset) auto
    with d have "distinct (map (\<lambda>ab. {fst ab, snd ab}) (filter (retained cmp path_to_hash threshold) ?C))"
      by (simp add: distinct_map)
    moreover have "map (\<lambda>p. {file_a p, file_b p}) ?ps
        = map (\<lambda>ab. {fst ab, snd ab}) (filter (retained cmp path_to_hash threshold) ?C)"
      by (simp add: mk_pair_def)
    ultimately show ?thesis by (simp only:)
  qed
  show ?thesis using eq c1 c2 c3 c4 by blast
qed

theorem compare_hashes_threshold_witness:
  "distinct (map fst [(''0.js'', ''h0''), (''1.js'', ''h1''), (''2.js'', ''h2'')])
   \<and> (\<exists>pairs. compare_hashes
          (\<lambda>x y. if x = ''h0'' \<and> y = ''h1'' then 90 else if x = ''h0'' \<and> y = ''h2'' then 89 else 100)
          [(''0.js'', ''h0''), (''1.js'', ''h1''), (''2.js'', ''h2'')] Map.empty 90 = Inr pairs
        \<and> (\<exists>p\<in>set pairs. file_a p = ''0.js'' \<and> file_b p = ''1.js'')
        \<and> \<not> (\<exists>p\<in>set pairs. file_a p = ''0.js'' \<and> file_b p = ''2.js''))"
proof -
  let ?h = "[(''0.js'', ''h0''), (''1.js'', ''h1''), (''2.js'', ''h2'')]"
  let ?cmp = "\<lambda>x y :: string. if x = ''h0'' \<and> y = ''h1'' then 90 else if x = ''h0'' \<and> y = ''h2'' then 89 else (100 :: int)"
  have d: "distinct (map fst ?h)" by simp
  from compare_hashes_threshold [OF d, of ?cmp Map.empty 90]
  obtain pairs where r: "compare_hashes ?cmp ?h Map.empty 90 = Inr pairs"
    and iff: "\<forall>a b ha hb. (a, b) \<in> set (combinations2 (map fst ?h))
          \<and> map_of ?h a = Some ha \<and> map_of ?h b = Some hb \<longrightarrow>
          ((\<exists>p\<in>set pairs. file_a p = a \<and> file_b p = b) \<longleftrightarrow> 90 \<le> ?cmp ha hb)"
    by blast
  have "\<exists>p\<in>set pairs. file_a p = ''0.js'' \<and> file_b p = ''1.js''"
    using iff [rule_format, of "''0.js''" "''1.js''" "''h0''" "''h1''"] by simp
  moreover have "\<not> (\<exists>p\<in>set pairs. file_a p = ''0.js'' \<and> file_b p = ''2.js'')"
    using iff [rule_format, of "''0.js''" "''2.js''" "''h0''" "''h2''"] by simp
  ultimately show ?thesis using d r by blast
qed

section \<open>Theorems: the concurrent crawler\<close>

lemma update_fresh: "k \<notin> fst ` set al \<Longrightarrow> AList.update k v al = al @ [(k, v)]"
  by (induction al) auto

lemma update_keys: "fst ` set (AList.update k v al) = insert k (fst ` set al)"
  by (induction al) auto

lemma fetch_url_fetched: "fetched url idx (fetch_url url idx resp)"
  by (cases resp) (auto simp: fetched_def fetch_url_def)

lemma fetched_mono: "fetched url idx res \<Longrightarrow> fst ` set idx \<subseteq> fst ` set idx' \<Longrightarrow> fetched url idx' res"
  by (auto simp: fetched_def)

lemma persist_simps [simp]:
  "json_dump (open_w s) = s\<lparr>index_file := Stored (crawled_index s)\<rparr>"
  by (simp add: json_dump_def open_w_def)

lemma run_inv_init:
  "distinct (map fst idx) \<Longrightarrow> json_load f = Inr idx \<Longrightarrow>
   run_inv idx utf \<lparr>state = \<lparr>crawled_index = idx, count = initial_count idx,
                            out_files = files, index_file = f\<rparr>,
                  finished = [], yielded = [], requested = [], raised = None\<rparr>"
  by (simp add: run_inv_def new_successes_def)

lemma map_of_None_keys: "map_of al k = None \<longleftrightarrow> k \<notin> fst ` set al"
  by (simp add: map_of_eq_None_iff)

lemma run_inv_worker:
  assumes "run_inv idx0 utf r"
  shows "run_inv idx0 utf (step utf (Worker i resp) r)"
proof (cases "raised r = None \<and> i < length utf \<and> map_of (finished r) i = None")
  case False
  then show ?thesis using assms by auto
next
  case True
  then have fresh: "i \<notin> fst ` set (finished r)" by (simp add: map_of_None_keys)
  have ns: "new_successes (step utf (Worker i resp) r) = new_successes r"
  proof -
    have "\<forall>j\<in>set (yielded r). map_of (finished r @ [(i, fetch_url (utf ! i) (crawled_index (state r)) resp)]) j
            = map_of (finished r) j"
      using assms fresh by (auto simp: run_inv_def map_add_def map_of_None_keys split: option.splits)
    then show ?thesis using True
      by (auto simp: new_successes_def Let_def intro!: arg_cong [where f = length] filter_cong)
  qed
  show ?thesis
    using assms True fresh ns fetch_url_fetched [of "utf ! i" "crawled_index (state r)" resp]
    unfolding run_inv_def
    by (auto simp: Let_def)
qed

lemma handle_future_already [simp]:
  "handle_future url (Inr (ALREADY_CRAWLED, content)) s = (None, s)"
  by (simp add: handle_future_def process_result_def)

lemma handle_future_success [simp]:
  "handle_future url (Inr (SUCCESS, Some body)) s =
     (None, s\<lparr>out_files := AList.update (count s) body (out_files s),
               crawled_index := AList.update url (Some (count s)) (crawled_index s),
               count := count s + 1,
               index_file := Stored (AList.update url (Some (count s)) (crawled_index s))\<rparr>)"
  by (simp add: handle_future_def process_result_def)

lemma handle_future_fail [simp]:
  "handle_future url (Inr (FAIL, content)) s =
     (None, s\<lparr>crawled_index := AList.update url None (crawled_index s),
               index_file := Stored (AList.update url None (crawled_index s))\<rparr>)"
  by (simp add: handle_future_def process_result_def)

lemma handle_future_exception [simp]:
  "handle_future url (Inl e) s =
     (None, s\<lparr>crawled_index := AList.update url None (crawled_index s),
               index_file := Stored (AList.update url None (crawled_index s))\<rparr>)"
  by (simp add: handle_future_def process_result_def)

lemma fetched_cases:
  assumes "fetched url idx res"
  obtains (already) "res = Inr (ALREADY_CRAWLED, None)" "url \<in> fst ` set idx"
    | (success) body where "res = Inr (SUCCESS, Some body)"
    | (fail) "res = Inr (FAIL, None)"
    | (exception) "res = Inl UnexpectedError"
  using assms unfolding fetched_def by blast

lemma handle_future_effect:
  assumes "fetched url (crawled_index s) res"
    and "distinct (map fst (crawled_index s))"
    and "json_load (index_file s) = Inr (crawled_index s)"
  shows "fst (handle_future url res s) = None"
    and "fst ` set (crawled_index s) \<subseteq> fst ` set (crawled_index (snd (handle_future url res s)))"
    and "url \<in> fst ` set (crawled_index (snd (handle_future url res s)))"
    and "distinct (map fst (crawled_index (snd (handle_future url res s))))"
    and "json_load (index_file (snd (handle_future url res s)))
           = Inr (crawled_index (snd (handle_future url res s)))"
    and "count (snd (handle_future url res s))
           = count s + (if is_success (Some res) then 1 else 0)"
proof -
  have l: "\<And>idx. json_load (Stored idx) = Inr idx" by (simp add: json_load_def)
  from assms(1) show "fst (handle_future url res s) = None"
    by (cases rule: fetched_cases) simp_all
  from assms(1) show "fst ` set (crawled_index s) \<subseteq> fst ` set (crawled_index (snd (handle_future url res s)))"
    by (cases rule: fetched_cases) (simp_all add: update_keys subset_insertI)
  from assms(1) show "url \<in> fst ` set (crawled_index (snd (handle_future url res s)))"
    by (cases rule: fetched_cases) (simp_all add: update_keys)
  from assms(1) show "distinct (map fst (crawled_index (snd (handle_future url res s))))"
    by (cases rule: fetched_cases) (simp_all add: distinct_update assms(2))
  from assms(1) show "json_load (index_file (snd (handle_future url res s)))
           = Inr (crawled_index (snd (handle_future url res s)))"
    by (cases rule: fetched_cases) (simp_all add: l assms(3))
  from assms(1) show "count (snd (handle_future url res s))
           = count s + (if is_success (Some res) then 1 else 0)"
    by (cases rule: fetched_cases) (simp_all add: is_success_def)
qed

lemma run_inv_main:
  assumes "run_inv idx0 utf r"
  shows "run_inv idx0 utf (step utf (Main i) r)"
proof (cases "raised r = None \<and> i < length utf \<and> i \<notin> set (yielded r)")
  case False
  then show ?thesis using assms by auto
next
  case guard: True
  show ?thesis
  proof (cases "map_of (finished r) i")
    case None
    then show ?thesis using assms guard by simp
  next
    case (Some res)
    let ?s = "state r" and ?url = "utf ! i"
    have inv: "distinct (map fst (crawled_index ?s))"
      "fst ` set idx0 \<subseteq> fst ` set (crawled_index ?s)"
      "\<forall>ir\<in>set (finished r). fst ir < length utf
             \<and> fetched (utf ! fst ir) (crawled_index ?s) (snd ir)"
      "distinct (map fst (finished r))" "distinct (yielded r)"
      "\<forall>i\<in>set (yielded r). i < length utf \<and> i \<in> fst ` set (finished r)
             \<and> utf ! i \<in> fst ` set (crawled_index ?s)"
      "json_load (index_file ?s) = Inr (crawled_index ?s)"
      "count ?s = initial_count idx0 + new_successes r"
      "set (requested r) \<subseteq> set utf"
      using assms unfolding run_inv_def by blast+
    have mem: "(i, res) \<in> set (finished r)" using Some by (rule map_of_SomeD)
    then have f: "fetched ?url (crawled_index ?s) res"
      using inv(3) by force
    let ?s' = "snd (handle_future ?url res ?s)"
    note eff = handle_future_effect [OF f inv(1) inv(7)]
    have st: "step utf (Main i) r = r\<lparr>state := ?s', yielded := yielded r @ [i], raised := None\<rparr>"
      using guard Some eff(1) by (simp add: case_prod_beta)
    have ns: "new_successes (r\<lparr>state := ?s', yielded := yielded r @ [i], raised := None\<rparr>)
                = new_successes r + (if is_success (Some res) then 1 else 0)"
      using Some by (simp add: new_successes_def)
    have fin: "\<forall>ir\<in>set (finished r). fst ir < length utf
             \<and> fetched (utf ! fst ir) (crawled_index ?s') (snd ir)"
      using inv(3) eff(2) fetched_mono by blast
    have yl: "\<forall>j\<in>set (yielded r @ [i]). j < length utf \<and> j \<in> fst ` set (finished r)
             \<and> utf ! j \<in> fst ` set (crawled_index ?s')"
    proof
      fix j assume "j \<in> set (yielded r @ [i])"
      then consider "j \<in> set (yielded r)" | "j = i" by auto
      then show "j < length utf \<and> j \<in> fst ` set (finished r)
             \<and> utf ! j \<in> fst ` set (crawled_index ?s')"
      proof cases
        case 1
        then show ?thesis using inv(6) eff(2) by blast
      next
        case 2
        then show ?thesis using guard mem eff(3) by force
      qed
    qed
    have sub: "fst ` set idx0 \<subseteq> fst ` set (crawled_index ?s')"
      using inv(2) eff(2) by (rule subset_trans)
    have dy: "distinct (yielded r @ [i])" using inv(5) guard by simp
    have cnt: "count ?s' = initial_count idx0 + (new_successes r + (if is_success (Some res) then 1 else 0))"
      using eff(6) inv(8) by simp
    show ?thesis
      unfolding st run_inv_def
      using ns fin yl sub dy cnt eff(4) eff(5) inv(4) inv(9)
      by simp
  qed
qed

lemma run_inv_step: "run_inv idx0 utf r \<Longrightarrow> run_inv idx0 utf (step utf e r)"
  by (cases e) (simp_all only: run_inv_worker run_inv_main)

lemma run_inv_fold: "run_inv idx0 utf r \<Longrightarrow> run_inv idx0 utf (fold (step utf) events r)"
  by (induction events arbitrary: r) (simp_all add: run_inv_step)

lemma slots_append: "slots (xs @ ys) = slots xs @ slots ys"
  by (simp add: slots_def map_filter_def)

lemma initial_count_slots: "initial_count idx = length (slots idx)"
  by (simp add: initial_count_def slots_def map_filter_def)

lemma dense_success:
  "dense idx k \<Longrightarrow> url \<notin> fst ` set idx \<Longrightarrow> dense (AList.update url (Some k) idx) (Suc k)"
  by (auto simp: dense_def update_fresh slots_append slots_def map_filter_def)

lemma dense_fail:
  "dense idx k \<Longrightarrow> url \<notin> fst ` set idx \<Longrightarrow> dense (AList.update url None idx) k"
  by (simp add: dense_def update_fresh slots_append) (simp add: slots_def map_filter_def)

lemma slots_success:
  "url \<notin> fst ` set idx \<Longrightarrow> length (slots (AList.update url (Some k) idx)) = Suc (length (slots idx))"
  by (simp add: update_fresh slots_append) (simp add: slots_def map_filter_def)

lemma slots_fail:
  "url \<notin> fst ` set idx \<Longrightarrow> length (slots (AList.update url None idx)) = length (slots idx)"
  by (simp add: update_fresh slots_append) (simp add: slots_def map_filter_def)

lemma recorded_update_other:
  "u \<noteq> url \<Longrightarrow> recorded (AList.update url v idx) u b = recorded idx u b"
  by (simp add: recorded_def update_conv')

lemma recorded_update_same:
  "recorded (AList.update url v idx) url b = (b \<longleftrightarrow> v \<noteq> None)"
  by (cases v) (auto simp: recorded_def update_conv')

lemma recorded_key: "recorded idx u b \<Longrightarrow> u \<in> fst ` set idx"
  using map_of_None_keys [of idx u] by (auto simp: recorded_def split: option.splits)

lemma unyielded_url_fresh:
  assumes "distinct utf" "set utf \<inter> fst ` set idx0 = {}"
    and "fst ` set idx = fst ` set idx0 \<union> (\<lambda>i. utf ! i) ` set ys"
    and "\<forall>j\<in>set ys. j < length utf"
    and "i < length utf" "i \<notin> set ys"
  shows "utf ! i \<notin> fst ` set idx"
proof
  assume "utf ! i \<in> fst ` set idx"
  then consider "utf ! i \<in> fst ` set idx0" | j where "j \<in> set ys" "utf ! i = utf ! j"
    using assms(3) by auto
  then show False
  proof cases
    case 1
    then show ?thesis using assms(2,5) by (meson disjoint_iff nth_mem)
  next
    case 2
    then have "i = j" using assms(1,4,5) by (simp add: nth_eq_iff_index_eq)
    then show ?thesis using 2(1) assms(6) by simp
  qed
qed

lemma run_inv_distinct_worker:
  assumes "run_inv idx0 utf r" "run_inv_distinct idx0 utf r"
    and "distinct utf" "set utf \<inter> fst ` set idx0 = {}"
  shows "run_inv_distinct idx0 utf (step utf (Worker i resp) r)"
proof (cases "raised r = None \<and> i < length utf \<and> map_of (finished r) i = None")
  case False
  then show ?thesis using assms(2) by auto
next
  case True
  have y: "\<forall>j\<in>set (yielded r). j < length utf \<and> j \<in> fst ` set (finished r)"
    using assms(1) unfolding run_inv_def by blast
  have nf: "i \<notin> fst ` set (finished r)" using True by (simp add: map_of_None_keys)
  then have "i \<notin> set (yielded r)" using y by blast
  moreover have k: "fst ` set (crawled_index (state r))
      = fst ` set idx0 \<union> (\<lambda>i. utf ! i) ` set (yielded r)"
    using assms(2) unfolding run_inv_distinct_def by blast
  ultimately have fresh: "utf ! i \<notin> fst ` set (crawled_index (state r))"
    using unyielded_url_fresh [OF assms(3,4) k] y True by blast
  then have na: "fetch_url (utf ! i) (crawled_index (state r)) resp \<noteq> Inr (ALREADY_CRAWLED, None)"
    by (cases resp) (simp_all add: fetch_url_def)
  have same: "\<forall>j\<in>set (yielded r).
      map_of (finished r @ [(i, fetch_url (utf ! i) (crawled_index (state r)) resp)]) j
        = map_of (finished r) j"
    using y nf by (auto simp: map_add_def map_of_None_keys split: option.splits)
  show ?thesis
    using assms(2) True na same unfolding run_inv_distinct_def by (simp add: Let_def)
qed

lemma run_inv_distinct_main:
  assumes "run_inv idx0 utf r" "run_inv_distinct idx0 utf r"
    and "distinct utf" "set utf \<inter> fst ` set idx0 = {}"
  shows "run_inv_distinct idx0 utf (step utf (Main i) r)"
proof (cases "raised r = None \<and> i < length utf \<and> i \<notin> set (yielded r)")
  case False
  then show ?thesis using assms(2) by auto
next
  case guard: True
  show ?thesis
  proof (cases "map_of (finished r) i")
    case None
    then show ?thesis using assms(2) guard by simp
  next
    case (Some res)
    let ?s = "state r" and ?url = "utf ! i"
    have inv: "distinct (map fst (crawled_index ?s))"
      "\<forall>ir\<in>set (finished r). fst ir < length utf
             \<and> fetched (utf ! fst ir) (crawled_index ?s) (snd ir)"
      "\<forall>i\<in>set (yielded r). i < length utf \<and> i \<in> fst ` set (finished r)
             \<and> utf ! i \<in> fst ` set (crawled_index ?s)"
      "json_load (index_file ?s) = Inr (crawled_index ?s)"
      using assms(1) unfolding run_inv_def by blast+
    have invd: "fst ` set (crawled_index ?s) = fst ` set idx0 \<union> (\<lambda>i. utf ! i) ` set (yielded r)"
      "\<forall>ir\<in>set (finished r). snd ir \<noteq> Inr (ALREADY_CRAWLED, None)"
      "length (slots (crawled_index ?s)) = count ?s"
      "dense idx0 (initial_count idx0) \<longrightarrow> dense (crawled_index ?s) (count ?s)"
      "\<forall>i\<in>set (yielded r). recorded (crawled_index ?s) (utf ! i) (is_success (map_of (finished r) i))"
      using assms(2) unfolding run_inv_distinct_def by blast+
    have mem: "(i, res) \<in> set (finished r)" using Some by (rule map_of_SomeD)
    then have f: "fetched ?url (crawled_index ?s) res" using inv(2) by force
    have na: "res \<noteq> Inr (ALREADY_CRAWLED, None)" using mem invd(2) by force
    have fresh: "?url \<notin> fst ` set (crawled_index ?s)"
      using unyielded_url_fresh [OF assms(3,4) invd(1)] inv(3) guard by blast
    let ?s' = "snd (handle_future ?url res ?s)"
    have st: "step utf (Main i) r = r\<lparr>state := ?s', yielded := yielded r @ [i], raised := None\<rparr>"
      using guard Some handle_future_effect(1) [OF f inv(1) inv(4)] by (simp add: case_prod_beta)
    from f na obtain v where idx': "crawled_index ?s' = AList.update ?url v (crawled_index ?s)"
      and v: "v \<noteq> None \<longleftrightarrow> is_success (Some res)"
      by (cases rule: fetched_cases) (simp_all add: is_success_def)
    have keys': "fst ` set (crawled_index ?s') = insert ?url (fst ` set (crawled_index ?s))"
      by (simp add: idx' update_keys)
    from f na have d': "dense idx0 (initial_count idx0) \<longrightarrow> dense (crawled_index ?s') (count ?s')"
      using invd(4)
      by (cases rule: fetched_cases) (simp_all add: dense_success dense_fail fresh)
    from f na have l': "length (slots (crawled_index ?s')) = count ?s'"
      by (cases rule: fetched_cases) (simp_all add: slots_success slots_fail fresh invd(3))
    have rec: "\<forall>j\<in>set (yielded r @ [i]).
        recorded (crawled_index ?s') (utf ! j) (is_success (map_of (finished r) j))"
    proof
      fix j assume "j \<in> set (yielded r @ [i])"
      then consider "j \<in> set (yielded r)" | "j = i" by auto
      then show "recorded (crawled_index ?s') (utf ! j) (is_success (map_of (finished r) j))"
      proof cases
        case 1
        then have "utf ! j \<noteq> ?url" using inv(3) fresh by metis
        then show ?thesis using invd(5) 1 by (simp add: idx' recorded_update_other)
      next
        case 2
        then show ?thesis using v Some by (simp add: idx' recorded_update_same)
      qed
    qed
    show ?thesis
      unfolding st run_inv_distinct_def
      using keys' d' l' rec invd(1) invd(2) by auto
  qed
qed

lemma run_inv_distinct_step:
  assumes "run_inv idx0 utf r" "run_inv_distinct idx0 utf r"
    and "distinct utf" "set utf \<inter> fst ` set idx0 = {}"
  shows "run_inv_distinct idx0 utf (step utf e r)"
  using assms by (cases e) (simp_all only: run_inv_distinct_worker run_inv_distinct_main)

lemma run_inv_distinct_fold:
  assumes "distinct utf" "set utf \<inter> fst ` set idx0 = {}"
  shows "run_inv idx0 utf r \<Longrightarrow> run_inv_distinct idx0 utf r \<Longrightarrow>
         run_inv_distinct idx0 utf (fold (step utf) events r)"
proof (induction events arbitrary: r)
  case Nil
  then show ?case by simp
next
  case (Cons e events)
  show ?case
    using Cons.IH [OF run_inv_step [OF Cons.prems(1)]
                      run_inv_distinct_step [OF Cons.prems(1) Cons.prems(2) assms]]
    by simp
qed

lemma run_inv_distinct_init:
  "run_inv_distinct idx utf \<lparr>state = \<lparr>crawled_index = idx, count = initial_count idx,
                            out_files = files, index_file = f\<rparr>,
                  finished = [], yielded = [], requested = [], raised = None\<rparr>"
  by (simp add: run_inv_distinct_def initial_count_slots)

lemma run_facts:
  assumes "json_load f = Inr idx" and "distinct (map fst idx)"
    and "download_with_record candidates events files f = Inr r"
  shows "run_inv idx (urls_to_fetch_of idx candidates) r"
    and "distinct candidates \<Longrightarrow> run_inv_distinct idx (urls_to_fetch_of idx candidates) r"
proof -
  let ?utf = "urls_to_fetch_of idx candidates"
  let ?r0 = "\<lparr>state = \<lparr>crawled_index = idx, count = initial_count idx,
                            out_files = files, index_file = f\<rparr>,
                  finished = [], yielded = [], requested = [], raised = None\<rparr>"
  have r: "r = fold (step ?utf) events ?r0"
    using assms(1,3) by (simp add: download_with_record_def)
  have i0: "run_inv idx ?utf ?r0" by (rule run_inv_init [OF assms(2) assms(1)])
  show "run_inv idx ?utf r" unfolding r using i0 by (rule run_inv_fold)
  assume "distinct candidates"
  then have d: "distinct ?utf" by (simp add: urls_to_fetch_of_def)
  have e: "set ?utf \<inter> fst ` set idx = {}" by (auto simp: urls_to_fetch_of_def)
  show "run_inv_distinct idx ?utf r"
    unfolding r using d e i0 run_inv_distinct_init by (rule run_inv_distinct_fold)
qed

lemma dense_initial: "set (slots idx) = {0..<initial_count idx} \<Longrightarrow> dense idx (initial_count idx)"
  unfolding dense_def initial_count_slots
  by (simp add: card_distinct)

text \<open>
  Claim C1. When the loaded index is dense (its slots are exactly \<open>0, ..., count - 1\<close>, as
  for the empty index of a first run) and the candidate URLs are distinct, then for every
  schedule, that is every order in which the fetches complete, the slots recorded in
  the index are exactly \<open>{0, ..., k - 1}\<close> without duplicate, where \<open>k\<close> is the counter the run
  returns, the prior successes plus the successes of this run, and the number of non-null
  entries of the index.
\<close>

theorem dense_slot_invariant:
  assumes "json_load f = Inr idx" and "distinct (map fst idx)"
    and "set (slots idx) = {0..<initial_count idx}"
    and "distinct candidates"
    and "download_with_record candidates events files f = Inr r"
  shows "set (slots (crawled_index (state r))) = {0..<count (state r)}
       \<and> distinct (slots (crawled_index (state r)))
       \<and> count (state r) = initial_count idx + new_successes r
       \<and> count (state r) = initial_count (crawled_index (state r))"
proof -
  note inv = run_facts [OF assms(1,2,5)]
  from inv(2) [OF assms(4)] dense_initial [OF assms(3)]
  have "dense (crawled_index (state r)) (count (state r))"
    and "length (slots (crawled_index (state r))) = count (state r)"
    unfolding run_inv_distinct_def by blast+
  moreover have "count (state r) = initial_count idx + new_successes r"
    using inv(1) unfolding run_inv_def by blast
  ultimately show ?thesis by (simp add: dense_def initial_count_slots)
qed

lemma all_yielded_iff: "all_yielded n r \<longleftrightarrow> (\<forall>i<n. i \<in> set (yielded r))"
  by (auto simp: all_yielded_def list_all_iff)

lemma step_nothing_to_fetch: "step [] e r = r"
  by (cases e) simp_all

lemma fold_step_nothing_to_fetch: "fold (step []) events r = r"
  by (induction events) (simp_all add: step_nothing_to_fetch)

lemma all_urls_resolved:
  assumes "run_inv idx (urls_to_fetch_of idx candidates) r"
    and "all_yielded (length (urls_to_fetch_of idx candidates)) r"
  shows "set candidates \<subseteq> fst ` set (crawled_index (state r))"
proof
  fix u assume u: "u \<in> set candidates"
  let ?utf = "urls_to_fetch_of idx candidates"
  have sub: "fst ` set idx \<subseteq> fst ` set (crawled_index (state r))"
    and y: "\<forall>i\<in>set (yielded r). ?utf ! i \<in> fst ` set (crawled_index (state r))"
    using assms(1) unfolding run_inv_def by blast+
  show "u \<in> fst ` set (crawled_index (state r))"
  proof (cases "u \<in> fst ` set idx")
    case True
    then show ?thesis using sub by blast
  next
    case False
    then have "u \<in> set ?utf" using u by (simp add: urls_to_fetch_of_def)
    then obtain i where "i < length ?utf" "?utf ! i = u" by (auto simp: in_set_conv_nth)
    then show ?thesis using y assms(2) by (auto simp: all_yielded_iff)
  qed
qed

text \<open>
  Claim C3. When a run has handled every future, no exception has left the loop, whatever
  the fetches did, and every outstanding URL has exactly one entry in the index, a slot or
  the failure sentinel. The counter returned is the prior successes plus the successes of
  this run. For distinct candidate URLs it is the number of non-null entries of the final
  index, every outstanding URL has a slot exactly when its fetch succeeded, and a URL whose
  fetch raised an unexpected exception has the failure sentinel.
\<close>

theorem one_disposition_per_url:
  assumes "json_load f = Inr idx" and "distinct (map fst idx)"
    and "download_with_record candidates events files f = Inr r"
    and "all_yielded (length (urls_to_fetch_of idx candidates)) r"
  shows "raised r = None
    \<and> (\<forall>u\<in>set (urls_to_fetch_of idx candidates). \<exists>!v. (u, v) \<in> set (crawled_index (state r)))
    \<and> count (state r) = initial_count idx + new_successes r
    \<and> (distinct candidates \<longrightarrow>
          count (state r) = initial_count (crawled_index (state r))
          \<and> (\<forall>i<length (urls_to_fetch_of idx candidates).
                recorded (crawled_index (state r)) (urls_to_fetch_of idx candidates ! i)
                  (is_success (map_of (finished r) i)))
          \<and> (\<forall>i e. map_of (finished r) i = Some (Inl e) \<longrightarrow>
                map_of (crawled_index (state r)) (urls_to_fetch_of idx candidates ! i) = Some None))"
proof -
  let ?utf = "urls_to_fetch_of idx candidates" and ?idx = "crawled_index (state r)"
  note inv = run_facts [OF assms(1,2,3)]
  have a: "raised r = None" and d: "distinct (map fst ?idx)"
    and c: "count (state r) = initial_count idx + new_successes r"
    and fin: "\<forall>ir\<in>set (finished r). fst ir < length ?utf"
    using inv(1) unfolding run_inv_def by blast+
  have res: "set candidates \<subseteq> fst ` set ?idx" using inv(1) assms(4) by (rule all_urls_resolved)
  have b: "\<forall>u\<in>set ?utf. \<exists>!v. (u, v) \<in> set ?idx"
  proof
    fix u assume "u \<in> set ?utf"
    then have "u \<in> fst ` set ?idx" using res by (auto simp: urls_to_fetch_of_def)
    then obtain v where "(u, v) \<in> set ?idx" by auto
    moreover have "\<And>w. (u, w) \<in> set ?idx \<Longrightarrow> w = v"
      using d calculation by (meson eq_key_imp_eq_value)
    ultimately show "\<exists>!v. (u, v) \<in> set ?idx" by blast
  qed
  have e: "distinct candidates \<longrightarrow>
          count (state r) = initial_count ?idx
          \<and> (\<forall>i<length ?utf. recorded ?idx (?utf ! i) (is_success (map_of (finished r) i)))
          \<and> (\<forall>i e. map_of (finished r) i = Some (Inl e) \<longrightarrow> map_of ?idx (?utf ! i) = Some None)"
  proof
    assume "distinct candidates"
    from inv(2) [OF this]
    have l: "length (slots ?idx) = count (state r)"
      and rec: "\<forall>i\<in>set (yielded r). recorded ?idx (?utf ! i) (is_success (map_of (finished r) i))"
      unfolding run_inv_distinct_def by blast+
    have rec': "\<forall>i<length ?utf. recorded ?idx (?utf ! i) (is_success (map_of (finished r) i))"
      using rec assms(4) by (simp add: all_yielded_iff)
    have "\<forall>i e. map_of (finished r) i = Some (Inl e) \<longrightarrow> map_of ?idx (?utf ! i) = Some None"
    proof (intro allI impI)
      fix i e assume m: "map_of (finished r) i = Some (Inl e)"
      then have "(i, Inl e) \<in> set (finished r)" by (rule map_of_SomeD)
      then have "i < length ?utf" using fin by force
      then have "recorded ?idx (?utf ! i) False"
        using rec' m by (auto simp: is_success_def)
      then show "map_of ?idx (?utf ! i) = Some None"
        by (auto simp: recorded_def split: option.splits)
    qed
    then show "count (state r) = initial_count ?idx
          \<and> (\<forall>i<length ?utf. recorded ?idx (?utf ! i) (is_success (map_of (finished r) i)))
          \<and> (\<forall>i e. map_of (finished r) i = Some (Inl e) \<longrightarrow> map_of ?idx (?utf ! i) = Some None)"
      using l rec' by (simp add: initial_count_slots)
  qed
  show ?thesis using a b c e by blast
qed

text \<open>
  Claim C2. No URL that is a key of the loaded index, with a slot or with the failure
  sentinel, is in the outstanding set or is requested from the network. After a run that
  handled every future, nothing of the same candidate list is outstanding, and a second
  run on it, under any schedule, fetches nothing and leaves the index, the files and the
  index file as the first run left them.
\<close>

theorem idempotent_resume:
  assumes "json_load f = Inr idx" and "distinct (map fst idx)"
    and "download_with_record candidates events files f = Inr r"
    and "all_yielded (length (urls_to_fetch_of idx candidates)) r"
  shows "set (urls_to_fetch_of idx candidates) \<inter> fst ` set idx = {}
    \<and> set (requested r) \<inter> fst ` set idx = {}
    \<and> urls_to_fetch_of (crawled_index (state r)) candidates = []
    \<and> (\<exists>r'. download_with_record candidates events' (out_files (state r)) (index_file (state r)) = Inr r'
          \<and> crawled_index (state r') = crawled_index (state r)
          \<and> out_files (state r') = out_files (state r)
          \<and> index_file (state r') = index_file (state r)
          \<and> finished r' = [] \<and> requested r' = [])"
proof -
  let ?utf = "urls_to_fetch_of idx candidates" and ?idx = "crawled_index (state r)"
  note inv = run_facts(1) [OF assms(1,2,3)]
  have a: "set ?utf \<inter> fst ` set idx = {}" by (auto simp: urls_to_fetch_of_def)
  have "set (requested r) \<subseteq> set ?utf" using inv unfolding run_inv_def by blast
  then have b: "set (requested r) \<inter> fst ` set idx = {}" using a by blast
  have "set candidates \<subseteq> fst ` set ?idx" using inv assms(4) by (rule all_urls_resolved)
  then have c: "urls_to_fetch_of ?idx candidates = []"
    by (auto simp: urls_to_fetch_of_def filter_empty_conv)
  have l: "json_load (index_file (state r)) = Inr ?idx" using inv unfolding run_inv_def by blast
  have "download_with_record candidates events' (out_files (state r)) (index_file (state r))
      = Inr \<lparr>state = \<lparr>crawled_index = ?idx, count = initial_count ?idx,
                       out_files = out_files (state r), index_file = index_file (state r)\<rparr>,
             finished = [], yielded = [], requested = [], raised = None\<rparr>"
    by (simp add: download_with_record_def l c fold_step_nothing_to_fetch)
  then show ?thesis using a b c by simp
qed

text \<open>
  Claim C4, as amended. Recording a success makes no duplicate check and raises nothing: for
  every state and every URL, present in the index or not, it writes the content to the file
  of the next slot, sets the entry of the URL to that slot (replacing an entry that is
  there), advances the counter and persists the index. Resolved URLs are kept away from it
  earlier: they are not in the outstanding set, \<open>fetch_url\<close> answers
  \<open>ALREADY_CRAWLED\<close> for a URL in the index, and on that answer \<open>process_result\<close>
  changes nothing.
\<close>

theorem process_result_overwrites:
  "process_result url SUCCESS (Some body) s =
     (None, s\<lparr>out_files := AList.update (count s) body (out_files s),
               crawled_index := AList.update url (Some (count s)) (crawled_index s),
               count := count s + 1,
               index_file := Stored (AList.update url (Some (count s)) (crawled_index s))\<rparr>)
   \<and> process_result url ALREADY_CRAWLED content s = (None, s)
   \<and> (url \<in> fst ` set idx \<longrightarrow>
        fetch_url url idx resp = Inr (ALREADY_CRAWLED, None) \<and> url \<notin> set (urls_to_fetch_of idx candidates))"
  by (simp add: process_result_def fetch_url_def urls_to_fetch_of_def)

text \<open>
  Claim C5, as amended. Persisting the index opens the index file for writing, which
  truncates it in place, and then dumps the whole map into it. A persist that completes
  leaves exactly the current index to the next load. A run cut between the truncation and
  the end of the dump leaves a file the next load cannot parse: \<open>download_with_record\<close>
  then fails with the decode error instead of resuming.
\<close>

theorem persist_truncates_in_place:
  "json_load (index_file (open_w s)) = Inl JSONDecodeError
   \<and> json_load (index_file (json_dump (open_w s))) = Inr (crawled_index s)
   \<and> download_with_record candidates events files (index_file (open_w s)) = Inl JSONDecodeError"
  by (simp add: json_load_def open_w_def json_dump_def download_with_record_def)

lemma example_run:
  "download_with_record [''a'', ''b'', ''c'']
      [Worker 2 (Status200 ''cc''), Worker 0 OtherException, Main 2,
       Worker 1 (Status200 ''bb''), Main 1, Main 0] [] Absent
   = Inr \<lparr>state = \<lparr>crawled_index = [(''c'', Some 0), (''b'', Some 1), (''a'', None)],
                     count = 2, out_files = [(0, ''cc''), (1, ''bb'')],
                     index_file = Stored [(''c'', Some 0), (''b'', Some 1), (''a'', None)]\<rparr>,
           finished = [(2, Inr (SUCCESS, Some ''cc'')), (0, Inl UnexpectedError),
                       (1, Inr (SUCCESS, Some ''bb''))],
           yielded = [2, 1, 0], requested = [''c'', ''a'', ''b''], raised = None\<rparr>"
  by code_simp

theorem dense_slot_invariant_witness:
  "json_load Absent = Inr []
   \<and> distinct (map fst ([] :: index))
   \<and> set (slots []) = {0..<initial_count []}
   \<and> distinct [''a'', ''b'', ''c'']
   \<and> (\<exists>r. download_with_record [''a'', ''b'', ''c'']
             [Worker 2 (Status200 ''cc''), Worker 0 OtherException, Main 2,
              Worker 1 (Status200 ''bb''), Main 1, Main 0] [] Absent = Inr r
          \<and> crawled_index (state r) = [(''c'', Some 0), (''b'', Some 1), (''a'', None)]
          \<and> set (slots (crawled_index (state r))) = {0..<count (state r)}
          \<and> distinct (slots (crawled_index (state r)))
          \<and> count (state r) = 2)"
proof -
  have h1: "json_load Absent = Inr []" by (simp add: json_load_def)
  have h2: "distinct (map fst ([] :: index))" by simp
  have h3: "set (slots []) = {0..<initial_count []}"
    by (simp add: slots_def initial_count_def map_filter_def)
  have h4: "distinct [''a'', ''b'', ''c'']" by simp
  from dense_slot_invariant [OF h1 h2 h3 h4 example_run] h1 h2 h3 h4 example_run
  show ?thesis by simp
qed

theorem one_disposition_per_url_witness:
  "json_load Absent = Inr []
   \<and> distinct (map fst ([] :: index))
   \<and> (\<exists>r. download_with_record [''a'', ''b'', ''c'']
             [Worker 2 (Status200 ''cc''), Worker 0 OtherException, Main 2,
              Worker 1 (Status200 ''bb''), Main 1, Main 0] [] Absent = Inr r
          \<and> all_yielded (length (urls_to_fetch_of [] [''a'', ''b'', ''c''])) r
          \<and> raised r = None
          \<and> (\<forall>u\<in>set (urls_to_fetch_of [] [''a'', ''b'', ''c'']).
                \<exists>!v. (u, v) \<in> set (crawled_index (state r)))
          \<and> map_of (crawled_index (state r)) ''a'' = Some None
          \<and> count (state r) = 2)"
proof -
  have h1: "json_load Absent = Inr []" by (simp add: json_load_def)
  have h2: "distinct (map fst ([] :: index))" by simp
  have h3: "all_yielded (length (urls_to_fetch_of [] [''a'', ''b'', ''c'']))
     \<lparr>state = \<lparr>crawled_index = [(''c'', Some 0), (''b'', Some 1), (''a'', None)],
                     count = 2, out_files = [(0, ''cc''), (1, ''bb'')],
                     index_file = Stored [(''c'', Some 0), (''b'', Some 1), (''a'', None)]\<rparr>,
           finished = [(2, Inr (SUCCESS, Some ''cc'')), (0, Inl UnexpectedError),
                       (1, Inr (SUCCESS, Some ''bb''))],
           yielded = [2, 1, 0], requested = [''c'', ''a'', ''b''], raised = None\<rparr>"
    by code_simp
  from one_disposition_per_url [OF h1 h2 example_run h3] h1 h2 h3 example_run
  show ?thesis by simp
qed

theorem idempotent_resume_witness:
  "json_load Absent = Inr []
   \<and> distinct (map fst ([] :: index))
   \<and> (\<exists>r. download_with_record [''a'', ''b'', ''c'']
             [Worker 2 (Status200 ''cc''), Worker 0 OtherException, Main 2,
              Worker 1 (Status200 ''bb''), Main 1, Main 0] [] Absent = Inr r
          \<and> all_yielded (length (urls_to_fetch_of [] [''a'', ''b'', ''c''])) r
          \<and> (\<exists>r'. download_with_record [''a'', ''b'', ''c'']
                 [Worker 0 (Status200 ''aa''), Main 0] (out_files (state r)) (index_file (state r))
                   = Inr r'
                \<and> crawled_index (state r') = crawled_index (state r)
                \<and> out_files (state r') = out_files (state r)
                \<and> index_file (state r') = index_file (state r)
                \<and> requested r' = []))"
proof -
  define r where "r =
     \<lparr>state = \<lparr>crawled_index = [(''c'', Some 0), (''b'', Some 1), (''a'', None)],
                     count = 2, out_files = [(0, ''cc''), (1, ''bb'')],
                     index_file = Stored [(''c'', Some 0), (''b'', Some 1), (''a'', None)]\<rparr>,
           finished = [(2, Inr (SUCCESS, Some ''cc'')), (0, Inl UnexpectedError),
                       (1, Inr (SUCCESS, Some ''bb''))],
           yielded = [2, 1, 0], requested = [''c'', ''a'', ''b''], raised = None\<rparr>"
  have h1: "json_load Absent = Inr []" by (simp add: json_load_def)
  have h2: "distinct (map fst ([] :: index))" by simp
  have run: "download_with_record [''a'', ''b'', ''c'']
             [Worker 2 (Status200 ''cc''), Worker 0 OtherException, Main 2,
              Worker 1 (Status200 ''bb''), Main 1, Main 0] [] Absent = Inr r"
    unfolding r_def by (rule example_run)
  have h3: "all_yielded (length (urls_to_fetch_of [] [''a'', ''b'', ''c''])) r"
    unfolding r_def by code_simp
  from idempotent_resume [OF h1 h2 run h3, of "[Worker 0 (Status200 ''aa''), Main 0]"]
  have "\<exists>r'. download_with_record [''a'', ''b'', ''c'']
                 [Worker 0 (Status200 ''aa''), Main 0] (out_files (state r)) (index_file (state r))
                   = Inr r'
                \<and> crawled_index (state r') = crawled_index (state r)
                \<and> out_files (state r') = out_files (state r)
                \<and> index_file (state r') = index_file (state r)
                \<and> requested r' = []"
    by blast
  with h1 h2 run h3 show ?thesis by blast
qed

theorem process_result_overwrites_witness:
  "''u'' \<in> fst ` set [(''u'', Some (0::nat))]
   \<and> fetch_url ''u'' [(''u'', Some 0)] (Status200 ''x'') = Inr (ALREADY_CRAWLED, None)
   \<and> ''u'' \<notin> set (urls_to_fetch_of [(''u'', Some 0)] [''u'', ''v''])"
  using process_result_overwrites [of "''u''" "''x''" undefined None "[(''u'', Some 0)]"
      "Status200 ''x''" "[''u'', ''v'']"]
  by simp

theorem process_result_duplicate_counterexample:
  "process_result ''u'' SUCCESS (Some ''new'')
     \<lparr>crawled_index = [(''u'', Some 0)], count = 1, out_files = [(0, ''old'')],
      index_file = Stored [(''u'', Some 0)]\<rparr>
   = (None, \<lparr>crawled_index = [(''u'', Some 1)], count = 2,
             out_files = [(0, ''old''), (1, ''new'')],
             index_file = Stored [(''u'', Some 1)]\<rparr>)"
  by (simp add: process_result_def json_dump_def open_w_def)

theorem persist_truncated_counterexample:
  "json_load (index_file (open_w
     \<lparr>crawled_index = [(''a'', Some 0), (''b'', None)], count = 1, out_files = [(0, ''aa'')],
      index_file = Stored [(''a'', Some 0)]\<rparr>)) = Inl JSONDecodeError"
  by (simp add: json_load_def open_w_def)
section \<open>Theorems: union-find and clusters\<close>

lemma root_of_fun: "root_of m x r \<Longrightarrow> root_of m x r' \<Longrightarrow> r = r'"
proof (induction arbitrary: r' rule: root_of.induct)
  case (root x)
  from root.prems root.hyps show ?case by (cases rule: root_of.cases) auto
next
  case (link x y r)
  from link.prems link.hyps(1,2) have "root_of m y r'" by (cases rule: root_of.cases) auto
  then show ?case by (rule link.IH)
qed

lemma root_of_root: "root_of m x r \<Longrightarrow> m r = Some r"
  by (induction rule: root_of.induct) auto

lemma root_of_dom: "root_of m x r \<Longrightarrow> x \<in> dom m"
  by (induction rule: root_of.induct) auto

lemma root_of_self: "root_of m x r \<Longrightarrow> root_of m r r"
  by (simp add: root_of_root root_of.root)

lemma find_loop_root:
  assumes "root_of (map_of p) x r"
  shows "\<exists>path. find_loop p x stack = Some (Inr (r, stack @ path))
               \<and> (\<forall>n\<in>set path. root_of (map_of p) n r)"
  using assms
proof (induction arbitrary: stack rule: root_of.induct)
  case (root x)
  then show ?case by (subst find_loop.simps) auto
next
  case (link x y r)
  from link.IH [of "stack @ [x]"] obtain path
    where 1: "find_loop p y (stack @ [x]) = Some (Inr (r, (stack @ [x]) @ path))"
      and 2: "\<forall>n\<in>set path. root_of (map_of p) n r"
    by blast
  have "root_of (map_of p) x r" using link.hyps(1,2,3) by (rule root_of.link)
  then have "\<forall>n\<in>set (x # path). root_of (map_of p) n r" using 2 by simp
  moreover have "find_loop p x stack = Some (Inr (r, stack @ (x # path)))"
    using 1 link.hyps(1,2) by (subst find_loop.simps) simp
  ultimately show ?case by blast
qed

lemma compress_one:
  assumes "root_of m n r"
  shows "root_of m x r' \<Longrightarrow> root_of (m(n \<mapsto> r)) x r'"
proof (induction rule: root_of.induct)
  case (root x)
  show ?case
  proof (cases "x = n")
    case True
    then have "root_of m n n" using root.hyps by (simp add: root_of.root)
    then have "r = n" using assms root_of_fun by blast
    then show ?thesis using True by (simp add: root_of.root)
  next
    case False
    then show ?thesis using root.hyps by (simp add: root_of.root)
  qed
next
  case (link x y r')
  have IH: "root_of (m(n \<mapsto> r)) y r'" by (rule link.IH)
  show ?case
  proof (cases "x = n")
    case True
    have "root_of m n r'" using True link.hyps by (auto intro: root_of.link)
    then have rr: "r' = r" using assms root_of_fun by blast
    have rt: "m r = Some r" using assms by (rule root_of_root)
    then have "r \<noteq> n" using True link.hyps(1,2) by auto
    then have rn: "r \<noteq> n" .
    have "(m(n \<mapsto> r)) r = Some r" using rt rn by simp
    then have 1: "root_of (m(n \<mapsto> r)) r r" by (rule root_of.root)
    have 2: "(m(n \<mapsto> r)) n = Some r" by simp
    show ?thesis unfolding True rr by (rule root_of.link [OF 2 rn 1])
  next
    case False
    then have "(m(n \<mapsto> r)) x = Some y" using link.hyps(1) by simp
    then show ?thesis using link.hyps(2) IH by (rule root_of.link)
  qed
qed

lemma forest_total: "forest p \<Longrightarrow> x \<in> fst ` set p \<Longrightarrow> \<exists>r. root_of (map_of p) x r"
  unfolding forest_def by blast

lemma forest_distinct: "forest p \<Longrightarrow> distinct (map fst p)"
  unfolding forest_def by blast

lemma forestI:
  "distinct (map fst p) \<Longrightarrow> (\<And>x. x \<in> fst ` set p \<Longrightarrow> \<exists>r. root_of (map_of p) x r) \<Longrightarrow> forest p"
  unfolding forest_def by blast

lemma root_of_key: "root_of (map_of p) x r \<Longrightarrow> x \<in> fst ` set p"
  using root_of_dom [of "map_of p" x r] by (simp add: dom_map_of_conv_image_fst)

lemma update_present_keys: "k \<in> fst ` set al \<Longrightarrow> map fst (AList.update k v al) = map fst al"
  by (induction al) auto

lemma update_fresh_keys: "k \<notin> fst ` set al \<Longrightarrow> map fst (AList.update k v al) = map fst al @ [k]"
  by (simp add: update_fresh)

lemma compress_one_forest:
  assumes "forest p" and "root_of (map_of p) n r"
  shows "forest (AList.update n r p)"
    and "root_of (map_of (AList.update n r p)) = root_of (map_of p)"
    and "map fst (AList.update n r p) = map fst p"
proof -
  let ?p' = "AList.update n r p"
  have m': "map_of ?p' = (map_of p)(n \<mapsto> r)" by (rule update_conv')
  have nk: "n \<in> fst ` set p" using assms(2) by (rule root_of_key)
  show keys: "map fst ?p' = map fst p" using nk by (rule update_present_keys)
  have fwd: "\<And>x r'. root_of (map_of p) x r' \<Longrightarrow> root_of (map_of ?p') x r'"
    unfolding m' using assms(2) by (rule compress_one)
  have bwd: "\<And>x r'. root_of (map_of ?p') x r' \<Longrightarrow> root_of (map_of p) x r'"
  proof -
    fix x r' assume a: "root_of (map_of ?p') x r'"
    then have "x \<in> fst ` set ?p'" by (rule root_of_key)
    then have "x \<in> fst ` set p" using nk by (simp add: update_keys insert_absorb)
    then obtain r'' where b: "root_of (map_of p) x r''" using assms(1) forest_total by blast
    then have "root_of (map_of ?p') x r''" by (rule fwd)
    then have "r'' = r'" using a root_of_fun by blast
    then show "root_of (map_of p) x r'" using b by simp
  qed
  show same: "root_of (map_of ?p') = root_of (map_of p)"
    by (intro ext) (blast intro: fwd bwd)
  have kset: "fst ` set ?p' = fst ` set p" using nk by (simp add: update_keys insert_absorb)
  show "forest ?p'"
  proof (rule forestI)
    show "distinct (map fst ?p')" using assms(1) forest_distinct by (simp only: keys)
    fix x assume "x \<in> fst ` set ?p'"
    then have "x \<in> fst ` set p" by (simp only: kset)
    then show "\<exists>r. root_of (map_of ?p') x r"
      using assms(1) forest_total by (simp only: same)
  qed
qed

lemma compress_fold_forest:
  assumes "forest p" and "\<forall>n\<in>set stack. root_of (map_of p) n r"
  shows "forest (fold (\<lambda>node p. AList.update node r p) stack p)
       \<and> root_of (map_of (fold (\<lambda>node p. AList.update node r p) stack p)) = root_of (map_of p)
       \<and> map fst (fold (\<lambda>node p. AList.update node r p) stack p) = map fst p"
  using assms
proof (induction stack arbitrary: p)
  case Nil
  then show ?case by simp
next
  case (Cons n stack)
  have n: "root_of (map_of p) n r" using Cons.prems(2) by simp
  note one = compress_one_forest [OF Cons.prems(1) n]
  have "\<forall>n'\<in>set stack. root_of (map_of (AList.update n r p)) n' r"
    using Cons.prems(2) by (simp add: one(2))
  from Cons.IH [OF one(1) this] show ?case by (simp add: one(2,3))
qed

lemma insert_fresh_forest:
  assumes "forest p" and "x \<notin> fst ` set p"
  shows "forest (AList.update x x p)"
    and "root_of (map_of (AList.update x x p)) y r \<longleftrightarrow> (y = x \<and> r = x) \<or> root_of (map_of p) y r"
proof -
  let ?p' = "AList.update x x p"
  have m': "map_of ?p' = (map_of p)(x \<mapsto> x)" by (rule update_conv')
  have keys: "fst ` set ?p' = insert x (fst ` set p)" by (rule update_keys)
  have new: "root_of (map_of ?p') x x" by (simp add: m' root_of.root)
  have old: "\<And>y r. root_of (map_of p) y r \<Longrightarrow> root_of (map_of ?p') y r"
  proof -
    fix y r show "root_of (map_of p) y r \<Longrightarrow> root_of (map_of ?p') y r"
    proof (induction rule: root_of.induct)
      case (root z)
      then have "root_of (map_of p) z z" by (rule root_of.root)
      then have "z \<in> fst ` set p" by (rule root_of_key)
      then have "z \<noteq> x" using assms(2) by blast
      then show ?case using root by (simp add: m' root_of.root)
    next
      case (link z y r)
      have "root_of (map_of p) z r" using link.hyps by (rule root_of.link)
      then have "z \<in> fst ` set p" by (rule root_of_key)
      then have "z \<noteq> x" using assms(2) by blast
      then have "map_of ?p' z = Some y" using link.hyps(1) by (simp add: m')
      then show ?case using link.hyps(2) link.IH by (rule root_of.link)
    qed
  qed
  have total: "\<And>y. y \<in> fst ` set ?p' \<Longrightarrow> \<exists>r. root_of (map_of ?p') y r"
  proof -
    fix y assume "y \<in> fst ` set ?p'"
    then consider "y = x" | "y \<in> fst ` set p" unfolding keys by blast
    then show "\<exists>r. root_of (map_of ?p') y r"
    proof cases
      case 1
      then show ?thesis using new by blast
    next
      case 2
      then obtain r where "root_of (map_of p) y r" using assms(1) forest_total by blast
      then have "root_of (map_of ?p') y r" by (rule old)
      then show ?thesis by blast
    qed
  qed
  show "forest ?p'"
  proof (rule forestI)
    show "distinct (map fst ?p')" using assms(2) forest_distinct [OF assms(1)]
      by (simp add: update_fresh)
  qed (rule total)
  show "root_of (map_of ?p') y r \<longleftrightarrow> (y = x \<and> r = x) \<or> root_of (map_of p) y r"
  proof
    assume a: "root_of (map_of ?p') y r"
    show "(y = x \<and> r = x) \<or> root_of (map_of p) y r"
    proof (cases "y = x")
      case True
      have "r = x" using a new unfolding True by (rule root_of_fun)
      then show ?thesis using True by simp
    next
      case False
      have "y \<in> fst ` set ?p'" using a by (rule root_of_key)
      then have "y \<in> fst ` set p" using False unfolding keys by simp
      then obtain r' where b: "root_of (map_of p) y r'" using assms(1) forest_total by blast
      have "root_of (map_of ?p') y r'" using b by (rule old)
      then have "r' = r" using a by (rule root_of_fun)
      then show ?thesis using b by simp
    qed
  next
    assume "(y = x \<and> r = x) \<or> root_of (map_of p) y r"
    then show "root_of (map_of ?p') y r" using new old by blast
  qed
qed

lemma find_uf_forest:
  assumes "forest p"
  shows "\<exists>r p'. find_uf x p = Some (Inr (r, p')) \<and> forest p'
      \<and> root_of (map_of p') x r
      \<and> (\<forall>y r'. root_of (map_of p') y r'
            \<longleftrightarrow> (y = x \<and> r' = x \<and> x \<notin> fst ` set p) \<or> root_of (map_of p) y r')
      \<and> map fst p' = (if x \<in> fst ` set p then map fst p else map fst p @ [x])"
proof -
  define p1 where "p1 = (if x \<notin> fst ` set p then AList.update x x p else p)"
  have f1: "forest p1"
    using assms insert_fresh_forest(1) by (simp add: p1_def)
  have r1: "\<And>y r'. root_of (map_of p1) y r'
            \<longleftrightarrow> (y = x \<and> r' = x \<and> x \<notin> fst ` set p) \<or> root_of (map_of p) y r'"
    using insert_fresh_forest(2) [OF assms] by (auto simp: p1_def)
  have k1: "map fst p1 = (if x \<in> fst ` set p then map fst p else map fst p @ [x])"
    by (simp add: p1_def update_fresh_keys)
  have "x \<in> fst ` set p1" by (simp add: p1_def update_keys)
  then obtain r where r: "root_of (map_of p1) x r" using f1 forest_total by blast
  from find_loop_root [OF r, of "[]"] obtain path
    where fl: "find_loop p1 x [] = Some (Inr (r, path))"
      and pth: "\<forall>n\<in>set path. root_of (map_of p1) n r"
    by auto
  let ?p' = "fold (\<lambda>node p. AList.update node r p) path p1"
  note c = compress_fold_forest [OF f1 pth]
  have "find_uf x p = Some (Inr (r, ?p'))"
    using fl by (simp add: find_uf_def p1_def [symmetric])
  moreover have "forest ?p'" using c by blast
  moreover have "root_of (map_of ?p') x r" using c r by simp
  moreover have "\<forall>y r'. root_of (map_of ?p') y r'
            \<longleftrightarrow> (y = x \<and> r' = x \<and> x \<notin> fst ` set p) \<or> root_of (map_of p) y r'"
    using c r1 by simp
  moreover have "map fst ?p' = (if x \<in> fst ` set p then map fst p else map fst p @ [x])"
    using c k1 by simp
  ultimately show ?thesis by blast
qed

lemma link_forest:
  assumes "forest p" and "map_of p px = Some px" and "map_of p py = Some py" and "px \<noteq> py"
  shows "forest (AList.update px py p)"
    and "root_of (map_of (AList.update px py p)) x r'
           \<longleftrightarrow> (\<exists>r. root_of (map_of p) x r \<and> r' = (if r = px then py else r))"
    and "root_of (map_of p) z r \<Longrightarrow>
           root_of (map_of (AList.update px py p)) z (if r = px then py else r)"
proof -
  let ?p' = "AList.update px py p"
  have m': "map_of ?p' = (map_of p)(px \<mapsto> py)" by (rule update_conv')
  have "root_of (map_of p) px px" using assms(2) by (rule root_of.root)
  then have pk: "px \<in> fst ` set p" by (rule root_of_key)
  have keys: "map fst ?p' = map fst p" using pk by (rule update_present_keys)
  have kset: "fst ` set ?p' = fst ` set p" using pk by (simp add: update_keys insert_absorb)
  have py': "root_of (map_of ?p') py py"
    using assms(3,4) by (simp add: m' root_of.root)
  have fwd: "\<And>z r. root_of (map_of p) z r \<Longrightarrow> root_of (map_of ?p') z (if r = px then py else r)"
  proof -
    fix z r show "root_of (map_of p) z r \<Longrightarrow> root_of (map_of ?p') z (if r = px then py else r)"
    proof (induction rule: root_of.induct)
      case (root z)
      show ?case
      proof (cases "z = px")
        case True
        have "map_of ?p' px = Some py" by (simp add: m')
        then have "root_of (map_of ?p') px py" using assms(4) [symmetric] py' by (rule root_of.link)
        then show ?thesis using True by simp
      next
        case False
        then have "map_of ?p' z = Some z" using root by (simp add: m')
        then show ?thesis using False by (simp add: root_of.root)
      qed
    next
      case (link z y r)
      have "z \<noteq> px" using link.hyps(1,2) assms(2) by auto
      then have "map_of ?p' z = Some y" using link.hyps(1) by (simp add: m')
      then show ?case using link.hyps(2) link.IH by (rule root_of.link)
    qed
  qed
  show "forest ?p'"
  proof (rule forestI)
    show "distinct (map fst ?p')" using assms(1) forest_distinct by (simp only: keys)
    fix z assume "z \<in> fst ` set ?p'"
    then have "z \<in> fst ` set p" by (simp only: kset)
    then obtain r where "root_of (map_of p) z r" using assms(1) forest_total by blast
    then have "root_of (map_of ?p') z (if r = px then py else r)" by (rule fwd)
    then show "\<exists>r. root_of (map_of ?p') z r" by blast
  qed
  show "root_of (map_of ?p') x r'
           \<longleftrightarrow> (\<exists>r. root_of (map_of p) x r \<and> r' = (if r = px then py else r))"
  proof
    assume a: "root_of (map_of ?p') x r'"
    then have "x \<in> fst ` set ?p'" by (rule root_of_key)
    then have "x \<in> fst ` set p" by (simp only: kset)
    then obtain r where b: "root_of (map_of p) x r" using assms(1) forest_total by blast
    then have "root_of (map_of ?p') x (if r = px then py else r)" by (rule fwd)
    then have "r' = (if r = px then py else r)" using a root_of_fun by blast
    then show "\<exists>r. root_of (map_of p) x r \<and> r' = (if r = px then py else r)" using b by blast
  next
    assume "\<exists>r. root_of (map_of p) x r \<and> r' = (if r = px then py else r)"
    then show "root_of (map_of ?p') x r'" using fwd by blast
  qed
  show "root_of (map_of p) z r \<Longrightarrow> root_of (map_of ?p') z (if r = px then py else r)"
    by (rule fwd)
qed

lemma same_rootI: "root_of (map_of p) x r \<Longrightarrow> root_of (map_of p) y r \<Longrightarrow> (x, y) \<in> same_root p"
  unfolding same_root_def by blast

lemma same_rootE:
  assumes "(x, y) \<in> same_root p"
  obtains r where "root_of (map_of p) x r" "root_of (map_of p) y r"
  using assms unfolding same_root_def by blast

lemma same_root_sym: "(x, y) \<in> same_root p \<Longrightarrow> (y, x) \<in> same_root p"
  unfolding same_root_def by blast

lemma same_root_trans:
  assumes "(x, y) \<in> same_root p" and "(y, z) \<in> same_root p"
  shows "(x, z) \<in> same_root p"
proof -
  from assms(1) obtain r where r: "root_of (map_of p) x r" "root_of (map_of p) y r"
    by (rule same_rootE)
  from assms(2) obtain r' where r': "root_of (map_of p) y r'" "root_of (map_of p) z r'"
    by (rule same_rootE)
  have "r = r'" using r(2) r'(1) by (rule root_of_fun)
  then show ?thesis using r(1) r'(2) same_rootI by blast
qed

lemma union_uf_forest:
  assumes "forest p"
  shows "\<exists>p'. union_uf x y p = Some (Inr p') \<and> forest p'
      \<and> (x, y) \<in> same_root p' \<and> same_root p \<subseteq> same_root p'
      \<and> same_root p' \<subseteq> (same_root p \<union> {(x, y), (y, x)})\<^sup>+"
proof -
  let ?T = "(same_root p \<union> {(x, y), (y, x)})\<^sup>+"
  from find_uf_forest [OF assms, of x] obtain px p1
    where f1: "find_uf x p = Some (Inr (px, p1))" and fo1: "forest p1"
      and x1: "root_of (map_of p1) x px"
      and r1: "\<And>z r'. root_of (map_of p1) z r'
            \<longleftrightarrow> (z = x \<and> r' = x \<and> x \<notin> fst ` set p) \<or> root_of (map_of p) z r'"
    by blast
  from find_uf_forest [OF fo1, of y] obtain py p2
    where f2: "find_uf y p1 = Some (Inr (py, p2))" and fo2: "forest p2"
      and y2: "root_of (map_of p2) y py"
      and r2: "\<And>z r'. root_of (map_of p2) z r'
            \<longleftrightarrow> (z = y \<and> r' = y \<and> y \<notin> fst ` set p1) \<or> root_of (map_of p1) z r'"
    by blast
  have x2: "root_of (map_of p2) x px" using x1 r2 by blast
  have old2: "\<And>z r. root_of (map_of p) z r \<Longrightarrow> root_of (map_of p2) z r"
    using r1 r2 by blast
  have new2: "\<And>z r. root_of (map_of p2) z r \<Longrightarrow>
      root_of (map_of p) z r \<or> (z \<in> {x, y} \<and> r = z \<and> z \<notin> fst ` set p)"
  proof -
    fix z r assume "root_of (map_of p2) z r"
    then consider "z = y" "r = y" "y \<notin> fst ` set p1" | "root_of (map_of p1) z r"
      using r2 by blast
    then show "root_of (map_of p) z r \<or> (z \<in> {x, y} \<and> r = z \<and> z \<notin> fst ` set p)"
    proof cases
      case 1
      have "y \<notin> fst ` set p"
      proof
        assume "y \<in> fst ` set p"
        then obtain ry where "root_of (map_of p) y ry" using assms forest_total by blast
        then have "root_of (map_of p1) y ry" using r1 by blast
        then show False using 1(3) root_of_key by blast
      qed
      then show ?thesis using 1 by simp
    next
      case 2
      then show ?thesis using r1 by auto
    qed
  qed
  have xyT: "(x, y) \<in> ?T" "(y, x) \<in> ?T" by auto
  have xxT: "(x, x) \<in> ?T" using xyT by (rule trancl_trans)
  have yyT: "(y, y) \<in> ?T" using xyT(2) xyT(1) by (rule trancl_trans)
  have A: "same_root p2 \<subseteq> ?T"
  proof
    fix ab assume ab: "ab \<in> same_root p2"
    obtain a b where abeq: "ab = (a, b)" by (cases ab)
    from ab obtain r where ra: "root_of (map_of p2) a r" and rb: "root_of (map_of p2) b r"
      unfolding abeq by (rule same_rootE)
    show "ab \<in> ?T"
    proof (cases "root_of (map_of p) a r")
      case olda: True
      have "root_of (map_of p) b r"
      proof (rule ccontr)
        assume "\<not> root_of (map_of p) b r"
        then have "r = b" "b \<notin> fst ` set p" using new2 [OF rb] by auto
        moreover have "root_of (map_of p) r r" using olda by (rule root_of_self)
        ultimately show False using root_of_key by blast
      qed
      then have "(a, b) \<in> same_root p" using olda same_rootI by blast
      then show ?thesis unfolding abeq by auto
    next
      case False
      then have a: "a \<in> {x, y}" "r = a" "a \<notin> fst ` set p" using new2 [OF ra] by auto
      have "\<not> root_of (map_of p) b r"
      proof
        assume "root_of (map_of p) b r"
        then have "root_of (map_of p) r r" by (rule root_of_self)
        then show False using a(2,3) root_of_key by blast
      qed
      then have "r = b" using new2 [OF rb] by auto
      then have "a = b" using a(2) by simp
      then show ?thesis unfolding abeq using a(1) xxT yyT by auto
    qed
  qed
  have old12: "same_root p \<subseteq> same_root p2"
    unfolding same_root_def using old2 by blast
  show ?thesis
  proof (cases "px = py")
    case True
    have "union_uf x y p = Some (Inr p2)" using f1 f2 True by (simp add: union_uf_def)
    moreover have "(x, y) \<in> same_root p2" using x2 y2 True same_rootI by blast
    ultimately show ?thesis using fo2 old12 A by blast
  next
    case False
    let ?p' = "AList.update px py p2"
    have rpx: "map_of p2 px = Some px" using x2 by (rule root_of_root)
    have rpy: "map_of p2 py = Some py" using y2 by (rule root_of_root)
    note lk = link_forest [OF fo2 rpx rpy False]
    have u: "union_uf x y p = Some (Inr ?p')" using f1 f2 False by (simp add: union_uf_def)
    have xy: "(x, y) \<in> same_root ?p'"
    proof (rule same_rootI)
      show "root_of (map_of ?p') x py" using lk(3) [OF x2] by simp
      show "root_of (map_of ?p') y py" using lk(3) [OF y2] False by simp
    qed
    have mono: "same_root p2 \<subseteq> same_root ?p'"
    proof
      fix ab assume ab: "ab \<in> same_root p2"
      obtain a b where abeq: "ab = (a, b)" by (cases ab)
      from ab obtain r where r: "root_of (map_of p2) a r" "root_of (map_of p2) b r"
        unfolding abeq by (rule same_rootE)
      show "ab \<in> same_root ?p'"
        unfolding abeq by (rule same_rootI [OF lk(3) [OF r(1)] lk(3) [OF r(2)]])
    qed
    have D: "same_root ?p' \<subseteq> ?T"
    proof
      fix ab assume ab: "ab \<in> same_root ?p'"
      obtain a b where abeq: "ab = (a, b)" by (cases ab)
      from ab obtain r' where "root_of (map_of ?p') a r'" "root_of (map_of ?p') b r'"
        unfolding abeq by (rule same_rootE)
      then obtain ra rb where ra: "root_of (map_of p2) a ra" and rb: "root_of (map_of p2) b rb"
        and eq: "(if ra = px then py else ra) = (if rb = px then py else rb)"
        unfolding lk(2) by metis
      consider "ra = rb" | "ra = px" "rb = py" | "ra = py" "rb = px"
        using eq by (auto split: if_splits)
      then show "ab \<in> ?T"
      proof cases
        case 1
        then have "(a, b) \<in> same_root p2" using ra rb same_rootI by blast
        then show ?thesis unfolding abeq using A by blast
      next
        case 2
        have "(a, x) \<in> ?T" using ra x2 2(1) same_rootI A by blast
        moreover have "(y, b) \<in> ?T" using rb y2 2(2) same_rootI A by blast
        ultimately show ?thesis unfolding abeq using xyT(1) by (meson trancl_trans)
      next
        case 3
        have "(a, y) \<in> ?T" using ra y2 3(1) same_rootI A by blast
        moreover have "(x, b) \<in> ?T" using rb x2 3(2) same_rootI A by blast
        ultimately show ?thesis unfolding abeq using xyT(2) by (meson trancl_trans)
      qed
    qed
    show ?thesis using u lk(1) xy old12 mono D by blast
  qed
qed

lemma trancl_subset_trancl: "R \<subseteq> S\<^sup>+ \<Longrightarrow> R\<^sup>+ \<subseteq> S\<^sup>+"
proof
  fix ab assume R: "R \<subseteq> S\<^sup>+" and ab: "ab \<in> R\<^sup>+"
  obtain a b where abeq: "ab = (a, b)" by (cases ab)
  have "(a, b) \<in> (S\<^sup>+)\<^sup>+" using ab R unfolding abeq by (rule trancl_mono)
  then show "ab \<in> S\<^sup>+" unfolding abeq by simp
qed

lemma edges_Cons: "edges (q # ps) = insert (file_a q, file_b q) (edges ps)"
  by (simp add: edges_def)

lemma union_pairs_forest:
  assumes "forest p"
  shows "\<exists>p'. union_pairs ps p = Some (Inr p') \<and> forest p'
      \<and> same_root p \<union> edges ps \<subseteq> same_root p'
      \<and> same_root p' \<subseteq> (same_root p \<union> edges ps \<union> (edges ps)\<inverse>)\<^sup>+"
  using assms
proof (induction ps arbitrary: p)
  case Nil
  then show ?case by (auto simp: edges_def)
next
  case (Cons q ps)
  let ?x = "file_a q" and ?y = "file_b q"
  let ?T = "(same_root p \<union> edges (q # ps) \<union> (edges (q # ps))\<inverse>)\<^sup>+"
  from union_uf_forest [OF Cons.prems, of ?x ?y] obtain p1
    where u: "union_uf ?x ?y p = Some (Inr p1)" and f1: "forest p1"
      and xy: "(?x, ?y) \<in> same_root p1" and mono: "same_root p \<subseteq> same_root p1"
      and up: "same_root p1 \<subseteq> (same_root p \<union> {(?x, ?y), (?y, ?x)})\<^sup>+"
    by blast
  from Cons.IH [OF f1] obtain p'
    where r: "union_pairs ps p1 = Some (Inr p')" and f': "forest p'"
      and lo: "same_root p1 \<union> edges ps \<subseteq> same_root p'"
      and hi: "same_root p' \<subseteq> (same_root p1 \<union> edges ps \<union> (edges ps)\<inverse>)\<^sup>+"
    by blast
  have run: "union_pairs (q # ps) p = Some (Inr p')" using u r by simp
  have lo': "same_root p \<union> edges (q # ps) \<subseteq> same_root p'"
    using lo mono xy by (auto simp: edges_Cons)
  have "same_root p \<union> {(?x, ?y), (?y, ?x)} \<subseteq> same_root p \<union> edges (q # ps) \<union> (edges (q # ps))\<inverse>"
    by (auto simp: edges_Cons)
  then have "(same_root p \<union> {(?x, ?y), (?y, ?x)})\<^sup>+ \<subseteq> ?T" by (rule trancl_mono_subset)
  then have 1: "same_root p1 \<subseteq> ?T" using up by blast
  have 2: "edges ps \<union> (edges ps)\<inverse> \<subseteq> ?T" by (auto simp: edges_Cons)
  have "same_root p1 \<union> edges ps \<union> (edges ps)\<inverse> \<subseteq> ?T" using 1 2 by blast
  then have "(same_root p1 \<union> edges ps \<union> (edges ps)\<inverse>)\<^sup>+ \<subseteq> ?T"
    by (rule trancl_subset_trancl)
  then have hi': "same_root p' \<subseteq> ?T" using hi by blast
  show ?case using run f' lo' hi' by blast
qed

lemma forest_Nil: "forest []"
  by (rule forestI) simp_all

lemma same_root_Nil: "same_root [] = {}"
  unfolding same_root_def using root_of_key [of "[]"] by auto

lemma union_pairs_connected:
  "\<exists>p. union_pairs pairs [] = Some (Inr p) \<and> forest p \<and> same_root p = connected pairs"
proof -
  from union_pairs_forest [OF forest_Nil, of pairs] obtain p
    where r: "union_pairs pairs [] = Some (Inr p)" and f: "forest p"
      and lo: "edges pairs \<subseteq> same_root p"
      and hi: "same_root p \<subseteq> (edges pairs \<union> (edges pairs)\<inverse>)\<^sup>+"
    by (auto simp: same_root_Nil)
  have base: "edges pairs \<union> (edges pairs)\<inverse> \<subseteq> same_root p"
    using lo same_root_sym by auto
  have "connected pairs \<subseteq> same_root p"
  proof
    fix ab assume ab: "ab \<in> connected pairs"
    obtain a b where abeq: "ab = (a, b)" by (cases ab)
    have "(a, b) \<in> (edges pairs \<union> (edges pairs)\<inverse>)\<^sup>+"
      using ab unfolding abeq connected_def .
    then have "(a, b) \<in> same_root p"
    proof (induction rule: trancl.induct)
      case (r_into_trancl a b)
      then show ?case using base by blast
    next
      case (trancl_into_trancl a b c)
      have "(b, c) \<in> same_root p" using trancl_into_trancl.hyps(2) base by blast
      with trancl_into_trancl.IH show ?case by (rule same_root_trans)
    qed
    then show "ab \<in> same_root p" unfolding abeq .
  qed
  then have "same_root p = connected pairs" using hi unfolding connected_def by blast
  then show ?thesis using r f by blast
qed

lemma rootf_eq: "root_of (map_of p) x r \<Longrightarrow> rootf p x = r"
  unfolding rootf_def using root_of_fun by blast

lemma collect_step:
  "(let roots1 = (if r \<notin> fst ` set roots then AList.update r [] roots else roots) in
      case map_of roots1 r of
        None \<Rightarrow> Some (Inl KeyError)
      | Some ms \<Rightarrow> F (AList.update r (ms @ [path]) roots1))
   = F (AList.update r (dict_get (map_of roots) r [] @ [path]) roots)"
proof (cases "r \<in> fst ` set roots")
  case True
  then obtain ms where "map_of roots r = Some ms"
    by (metis map_of_eq_None_iff not_Some_eq)
  then show ?thesis using True by (simp add: dict_get_def)
next
  case False
  then have "map_of roots r = None" by (simp add: map_of_eq_None_iff)
  then show ?thesis using False by (simp add: dict_get_def update_conv')
qed

lemma collect_roots_fold:
  assumes "forest p" and "set paths \<subseteq> fst ` set p"
  shows "collect_roots paths p roots = Some (Inr (fold (add_root (rootf p)) paths roots))"
  using assms
proof (induction paths arbitrary: p roots)
  case Nil
  then show ?case by simp
next
  case (Cons path paths)
  have pk: "path \<in> fst ` set p" using Cons.prems(2) by simp
  from find_uf_forest [OF Cons.prems(1), of path] obtain r p'
    where f: "find_uf path p = Some (Inr (r, p'))" and fo: "forest p'"
      and rt: "root_of (map_of p') path r"
      and same: "\<And>y r'. root_of (map_of p') y r'
            \<longleftrightarrow> (y = path \<and> r' = path \<and> path \<notin> fst ` set p) \<or> root_of (map_of p) y r'"
      and keys: "map fst p' = (if path \<in> fst ` set p then map fst p else map fst p @ [path])"
    by blast
  have eq: "root_of (map_of p') = root_of (map_of p)"
    using same pk by (intro ext) simp
  have rf: "rootf p' = rootf p" unfolding rootf_def eq by (rule refl)
  have r: "r = rootf p path" using rt unfolding eq by (simp add: rootf_eq)
  have "fst ` set p' = fst ` set p" using keys pk by (metis list.set_map)
  then have sub: "set paths \<subseteq> fst ` set p'" using Cons.prems(2) by simp
  have IH: "\<And>roots. collect_roots paths p' roots = Some (Inr (fold (add_root (rootf p)) paths roots))"
    using Cons.IH [OF fo sub] unfolding rf .
  have st: "add_root (rootf p) path roots
      = AList.update r (dict_get (map_of roots) r [] @ [path]) roots"
    by (simp add: add_root_def r)
  show ?case
    using f by (simp add: collect_step IH st [symmetric])
qed

lemma add_root_map_of:
  "map_of (add_root f k roots) r
     = (if f k = r then Some (dict_get (map_of roots) r [] @ [k]) else map_of roots r)"
  by (simp add: add_root_def update_conv')

lemma fold_add_root_map_of:
  "map_of (fold (add_root f) paths roots) r
     = (if filter (\<lambda>k. f k = r) paths = [] then map_of roots r
        else Some (dict_get (map_of roots) r [] @ filter (\<lambda>k. f k = r) paths))"
proof (induction paths arbitrary: roots)
  case Nil
  then show ?case by simp
next
  case (Cons k paths)
  show ?case
    by (simp add: Cons.IH add_root_map_of dict_get_def)
qed

lemma fold_add_root_distinct:
  "distinct (map fst roots) \<Longrightarrow> distinct (map fst (fold (add_root f) paths roots))"
  by (induction paths arbitrary: roots) (simp_all add: add_root_def distinct_update)

lemma collected_members:
  assumes "(r, ms) \<in> set (fold (add_root f) paths [])"
  shows "ms = filter (\<lambda>k. f k = r) paths" and "ms \<noteq> []"
proof -
  have "distinct (map fst (fold (add_root f) paths []))"
    by (rule fold_add_root_distinct) simp
  then have "map_of (fold (add_root f) paths []) r = Some ms"
    using assms by (rule map_of_is_SomeI)
  then have "filter (\<lambda>k. f k = r) paths \<noteq> [] \<and> ms = filter (\<lambda>k. f k = r) paths"
    by (simp add: fold_add_root_map_of dict_get_def split: if_splits)
  then show "ms = filter (\<lambda>k. f k = r) paths" and "ms \<noteq> []" by simp_all
qed

lemma make_clusters_map:
  "\<forall>rm\<in>set roots. snd rm \<noteq> [] \<Longrightarrow>
   make_clusters path_to_urls roots = Inr (map (mk_cluster path_to_urls) roots)"
proof (induction roots)
  case Nil
  then show ?case by simp
next
  case (Cons rm roots)
  obtain r ms where rm: "rm = (r, ms)" by (cases rm)
  have "ms \<noteq> []" using Cons.prems rm by simp
  then have "sort ms \<noteq> []" by (metis length_sort length_0_conv)
  then obtain m0 others where so: "sort ms = m0 # others" by (cases "sort ms") auto
  have "make_clusters path_to_urls roots = Inr (map (mk_cluster path_to_urls) roots)"
    using Cons by simp
  then show ?case by (simp add: rm so mk_cluster_def)
qed

lemma build_clusters_fold:
  "\<exists>p. forest p \<and> same_root p = connected pairs
     \<and> build_clusters pairs path_to_urls
         = Some (Inr (map (mk_cluster path_to_urls)
                        (fold (add_root (rootf p)) (map fst p) [])))"
proof -
  from union_pairs_connected [of pairs] obtain p
    where u: "union_pairs pairs [] = Some (Inr p)" and f: "forest p"
      and c: "same_root p = connected pairs"
    by blast
  have cr: "collect_roots (map fst p) p [] = Some (Inr (fold (add_root (rootf p)) (map fst p) []))"
    using f by (rule collect_roots_fold) simp
  have "\<forall>rm\<in>set (fold (add_root (rootf p)) (map fst p) []). snd rm \<noteq> []"
    using collected_members(2) by (metis prod.collapse)
  then have "make_clusters path_to_urls (fold (add_root (rootf p)) (map fst p) [])
      = Inr (map (mk_cluster path_to_urls) (fold (add_root (rootf p)) (map fst p) []))"
    by (rule make_clusters_map)
  then have "build_clusters pairs path_to_urls
         = Some (Inr (map (mk_cluster path_to_urls)
                        (fold (add_root (rootf p)) (map fst p) [])))"
    using u cr by (simp add: build_clusters_def)
  then show ?thesis using f c by blast
qed

lemma forest_rootf: "forest p \<Longrightarrow> x \<in> fst ` set p \<Longrightarrow> root_of (map_of p) x (rootf p x)"
  using forest_total rootf_eq by blast

lemma same_root_rootf:
  assumes "forest p"
  shows "(x, y) \<in> same_root p
     \<longleftrightarrow> x \<in> fst ` set p \<and> y \<in> fst ` set p \<and> rootf p x = rootf p y"
proof
  assume "(x, y) \<in> same_root p"
  then obtain r where "root_of (map_of p) x r" "root_of (map_of p) y r" by (rule same_rootE)
  then show "x \<in> fst ` set p \<and> y \<in> fst ` set p \<and> rootf p x = rootf p y"
    by (simp add: root_of_key rootf_eq)
next
  assume a: "x \<in> fst ` set p \<and> y \<in> fst ` set p \<and> rootf p x = rootf p y"
  have 1: "root_of (map_of p) x (rootf p x)" using a forest_rootf [OF assms] by blast
  have "root_of (map_of p) y (rootf p y)" using a forest_rootf [OF assms] by blast
  then have 2: "root_of (map_of p) y (rootf p x)" using a by simp
  show "(x, y) \<in> same_root p" using 1 2 by (rule same_rootI)
qed

lemma distinct_snd_of_fst: "distinct (map fst xs) \<Longrightarrow> distinct xs"
  by (rule distinct_map [THEN iffD1, THEN conjunct1])

lemma build_clusters_components:
  "\<exists>cs. build_clusters pairs path_to_urls = Some (Inr cs)
     \<and> (\<forall>c\<in>set cs. members c \<noteq> [] \<and> sorted (members c) \<and> distinct (members c)
           \<and> representative c = hd (members c)
           \<and> (\<forall>x\<in>set (members c). set (members c) = {y. (x, y) \<in> connected pairs}))
     \<and> distinct (concat (map members cs))
     \<and> (\<Union>c\<in>set cs. set (members c)) = {x. (x, x) \<in> connected pairs}"
proof -
  from build_clusters_fold [of pairs path_to_urls] obtain p
    where f: "forest p" and c: "same_root p = connected pairs"
      and b: "build_clusters pairs path_to_urls
         = Some (Inr (map (mk_cluster path_to_urls)
                        (fold (add_root (rootf p)) (map fst p) [])))"
    by blast
  define ks where "ks = map fst p"
  define f where "f = rootf p"
  let ?G = "fold (add_root f) ks []"
  let ?cs = "map (mk_cluster path_to_urls) ?G"
  have b': "build_clusters pairs path_to_urls = Some (Inr ?cs)"
    using b unfolding ks_def f_def .
  have dk: "distinct ks" unfolding ks_def using f by (rule forest_distinct)
  have dG: "distinct (map fst ?G)" by (rule fold_add_root_distinct) simp
  have conn: "\<And>x y. (x, y) \<in> connected pairs
       \<longleftrightarrow> x \<in> set ks \<and> y \<in> set ks \<and> f x = f y"
    using same_root_rootf [OF f] unfolding c ks_def f_def by simp
  have mem: "\<And>r ms. (r, ms) \<in> set ?G \<Longrightarrow> ms = filter (\<lambda>k. f k = r) ks \<and> ms \<noteq> []"
    using collected_members by blast
  have each: "\<forall>c\<in>set ?cs. members c \<noteq> [] \<and> sorted (members c) \<and> distinct (members c)
           \<and> representative c = hd (members c)
           \<and> (\<forall>x\<in>set (members c). set (members c) = {y. (x, y) \<in> connected pairs})"
  proof
    fix c assume "c \<in> set ?cs"
    then obtain r ms where rm: "(r, ms) \<in> set ?G" and ceq: "c = mk_cluster path_to_urls (r, ms)"
      by auto
    have ms: "ms = filter (\<lambda>k. f k = r) ks" and ne: "ms \<noteq> []" using mem [OF rm] by blast+
    have m: "members c = sort ms" and rp: "representative c = hd (members c)"
      by (simp_all add: ceq mk_cluster_def)
    have 1: "members c \<noteq> []" using ne unfolding m by (metis length_sort length_0_conv)
    have 2: "sorted (members c)" unfolding m by simp
    have 3: "distinct (members c)" unfolding m using dk by (simp add: ms)
    have s: "set (members c) = {k \<in> set ks. f k = r}" unfolding m by (auto simp: ms)
    have 4: "\<forall>x\<in>set (members c). set (members c) = {y. (x, y) \<in> connected pairs}"
    proof
      fix x assume "x \<in> set (members c)"
      then have "x \<in> set ks" "f x = r" unfolding s by simp_all
      then show "set (members c) = {y. (x, y) \<in> connected pairs}"
        unfolding s conn by auto
    qed
    show "members c \<noteq> [] \<and> sorted (members c) \<and> distinct (members c)
           \<and> representative c = hd (members c)
           \<and> (\<forall>x\<in>set (members c). set (members c) = {y. (x, y) \<in> connected pairs})"
      using 1 2 3 4 rp by blast
  qed
  have mm: "map members ?cs = map (\<lambda>rm. sort (snd rm)) ?G"
    by (simp add: mk_cluster_def)
  have key_of: "\<And>rm k. rm \<in> set ?G \<Longrightarrow> k \<in> set (sort (snd rm)) \<Longrightarrow> f k = fst rm"
  proof -
    fix rm k assume "rm \<in> set ?G" and k: "k \<in> set (sort (snd rm))"
    then have "snd rm = filter (\<lambda>k. f k = fst rm) ks" using mem [of "fst rm" "snd rm"] by simp
    moreover have "k \<in> set (snd rm)" using k by simp
    ultimately have "k \<in> set (filter (\<lambda>k. f k = fst rm) ks)" by simp
    then show "f k = fst rm" by simp
  qed
  have nonempty: "\<And>rm. rm \<in> set ?G \<Longrightarrow> sort (snd rm) \<noteq> []"
    using mem by (metis length_sort length_0_conv prod.collapse)
  have inj: "inj_on (\<lambda>rm. sort (snd rm)) (set ?G)"
  proof (rule inj_onI)
    fix rm rm' assume a: "rm \<in> set ?G" and a': "rm' \<in> set ?G"
      and e: "sort (snd rm) = sort (snd rm')"
    obtain k where k: "k \<in> set (sort (snd rm))" using nonempty [OF a] by (meson last_in_set)
    have "fst rm = fst rm'" using key_of [OF a k] key_of [OF a', of k] k e by simp
    then show "rm = rm'" using a a' dG by (metis eq_key_imp_eq_value prod.collapse)
  qed
  have dc: "distinct (concat (map members ?cs))"
    unfolding mm
  proof (rule distinct_concat)
    show "distinct (map (\<lambda>rm. sort (snd rm)) ?G)"
      using inj distinct_snd_of_fst [OF dG] by (simp add: distinct_map)
  next
    fix ys assume "ys \<in> set (map (\<lambda>rm. sort (snd rm)) ?G)"
    then obtain rm where rm: "rm \<in> set ?G" "ys = sort (snd rm)" by auto
    then have "snd rm = filter (\<lambda>k. f k = fst rm) ks" using mem [of "fst rm" "snd rm"] by simp
    then have "distinct (snd rm)" using dk by (metis distinct_filter)
    then show "distinct ys" using rm(2) by simp
  next
    fix ys zs assume "ys \<in> set (map (\<lambda>rm. sort (snd rm)) ?G)"
      and "zs \<in> set (map (\<lambda>rm. sort (snd rm)) ?G)" and ne: "ys \<noteq> zs"
    then obtain rm rm' where rm: "rm \<in> set ?G" "ys = sort (snd rm)"
      and rm': "rm' \<in> set ?G" "zs = sort (snd rm')" by auto
    show "set ys \<inter> set zs = {}"
    proof (rule ccontr)
      assume "set ys \<inter> set zs \<noteq> {}"
      then obtain k where "k \<in> set ys" "k \<in> set zs" by blast
      then have "fst rm = fst rm'"
        using key_of [OF rm(1), of k] key_of [OF rm'(1), of k] rm(2) rm'(2) by simp
      then have "rm = rm'" using rm(1) rm'(1) dG by (metis eq_key_imp_eq_value prod.collapse)
      then show False using ne rm(2) rm'(2) by simp
    qed
  qed
  have un: "(\<Union>c\<in>set ?cs. set (members c)) = {x. (x, x) \<in> connected pairs}"
  proof (intro set_eqI iffI)
    fix x assume "x \<in> (\<Union>c\<in>set ?cs. set (members c))"
    then obtain c where "c \<in> set ?cs" "x \<in> set (members c)" by blast
    then have "set (members c) = {y. (x, y) \<in> connected pairs}" using each by blast
    then show "x \<in> {x. (x, x) \<in> connected pairs}" using \<open>x \<in> set (members c)\<close> by blast
  next
    fix x assume "x \<in> {x. (x, x) \<in> connected pairs}"
    then have xk: "x \<in> set ks" using conn by blast
    let ?ms = "filter (\<lambda>k. f k = f x) ks"
    have ne: "?ms \<noteq> []" using xk by (metis (mono_tags, lifting) filter_empty_conv)
    then have "map_of ?G (f x) = Some ?ms"
      by (simp add: fold_add_root_map_of dict_get_def)
    then have "(f x, ?ms) \<in> set ?G" by (rule map_of_SomeD)
    then have "mk_cluster path_to_urls (f x, ?ms) \<in> set ?cs" by simp
    moreover have "x \<in> set (members (mk_cluster path_to_urls (f x, ?ms)))"
      using xk by (simp add: mk_cluster_def)
    ultimately show "x \<in> (\<Union>c\<in>set ?cs. set (members c))" by blast
  qed
  show ?thesis using b' each dc un by blast
qed

lemma connected_refl_iff:
  "(x, x) \<in> connected pairs \<longleftrightarrow> x \<in> fst ` edges pairs \<union> snd ` edges pairs"
proof
  assume "(x, x) \<in> connected pairs"
  then obtain z where "(x, z) \<in> edges pairs \<union> (edges pairs)\<inverse>"
    unfolding connected_def by (meson tranclD)
  then show "x \<in> fst ` edges pairs \<union> snd ` edges pairs" by force
next
  assume "x \<in> fst ` edges pairs \<union> snd ` edges pairs"
  then obtain y where "(x, y) \<in> edges pairs \<union> (edges pairs)\<inverse>" by force
  then have "(x, y) \<in> connected pairs" "(y, x) \<in> connected pairs"
    unfolding connected_def by auto
  then show "(x, x) \<in> connected pairs" unfolding connected_def by (rule trancl_trans)
qed

lemma sorted_hd_least: "sorted xs \<Longrightarrow> m \<in> set xs \<Longrightarrow> hd xs \<le> (m :: 'a :: linorder)"
  by (cases xs) auto

lemma one_nonempty_class:
  assumes "distinct (concat (map members cs))"
    and "\<forall>c\<in>set cs. members c \<noteq> [] \<and> set (members c) = S"
    and "cs \<noteq> []"
  shows "\<exists>c. cs = [c]"
proof (cases cs)
  case Nil
  then show ?thesis using assms(3) by simp
next
  case (Cons c rest)
  show ?thesis
  proof (cases rest)
    case Nil
    then show ?thesis using Cons by simp
  next
    case (Cons c' rest')
    have c: "members c \<noteq> []" "set (members c) = S"
      using assms(2) \<open>cs = c # rest\<close> by simp_all
    have c': "set (members c') = S"
      using assms(2) \<open>cs = c # rest\<close> Cons by simp
    have "hd (members c) \<in> set (members c)" using c(1) by (rule hd_in_set)
    then have "set (members c) \<inter> set (members c') \<noteq> {}"
      unfolding c(2) c' by blast
    then show ?thesis using assms(1) \<open>cs = c # rest\<close> Cons by auto
  qed
qed

lemma three_files_one_cluster:
  assumes d: "distinct (map fst path_to_hash)"
    and keys: "set (map fst path_to_hash) = {A, B, C}"
    and ne: "A \<noteq> B" "B \<noteq> C" "A \<noteq> C"
    and h: "map_of path_to_hash A = Some hA" "map_of path_to_hash B = Some hB"
           "map_of path_to_hash C = Some hC"
    and sc: "cmp hA hB = 95" "cmp hB hA = 95" "cmp hB hC = 92" "cmp hC hB = 92"
  shows "\<exists>ps c. compare_hashes cmp path_to_hash path_to_urls 90 = Inr ps
           \<and> build_clusters ps path_to_urls = Some (Inr [c]) \<and> members c = sort [A, B, C]"
proof -
  let ?C = "combinations2 (map fst path_to_hash)"
  let ?ps = "map (mk_pair cmp path_to_hash path_to_urls) (filter (retained cmp path_to_hash 90) ?C)"
  let ?S = "{A, B, C}"
  have ch: "compare_hashes cmp path_to_hash path_to_urls 90 = Inr ?ps" by (rule compare_hashes_eq)
  have E: "edges ?ps = {ab \<in> set ?C. retained cmp path_to_hash 90 ab}"
    by (auto simp: edges_def mk_pair_def image_iff)
  have sub: "edges ?ps \<subseteq> ?S \<times> ?S"
    unfolding E using combinations2_subset [of _ _ "map fst path_to_hash"] keys by auto
  have AB: "(A, B) \<in> edges ?ps \<union> (edges ?ps)\<inverse>"
  proof -
    have "(A, B) \<in> set ?C \<or> (B, A) \<in> set ?C"
      using combinations2_total [of A "map fst path_to_hash" B] keys ne by simp
    then show ?thesis unfolding E using h sc by (auto simp: retained_def)
  qed
  have BC: "(B, C) \<in> edges ?ps \<union> (edges ?ps)\<inverse>"
  proof -
    have "(B, C) \<in> set ?C \<or> (C, B) \<in> set ?C"
      using combinations2_total [of B "map fst path_to_hash" C] keys ne by simp
    then show ?thesis unfolding E using h sc by (auto simp: retained_def)
  qed
  have cAB: "(A, B) \<in> connected ?ps" using AB unfolding connected_def by (rule r_into_trancl')
  have cBA: "(B, A) \<in> connected ?ps"
  proof -
    have "(B, A) \<in> edges ?ps \<union> (edges ?ps)\<inverse>" using AB by blast
    then show ?thesis unfolding connected_def by (rule r_into_trancl')
  qed
  have cBC: "(B, C) \<in> connected ?ps" using BC unfolding connected_def by (rule r_into_trancl')
  have cCB: "(C, B) \<in> connected ?ps"
  proof -
    have "(C, B) \<in> edges ?ps \<union> (edges ?ps)\<inverse>" using BC by blast
    then show ?thesis unfolding connected_def by (rule r_into_trancl')
  qed
  have tr: "\<And>x y z. (x, y) \<in> connected ?ps \<Longrightarrow> (y, z) \<in> connected ?ps \<Longrightarrow> (x, z) \<in> connected ?ps"
    unfolding connected_def by (rule trancl_trans)
  have cAC: "(A, C) \<in> connected ?ps" using cAB cBC by (rule tr)
  have cCA: "(C, A) \<in> connected ?ps" using cCB cBA by (rule tr)
  have cAA: "(A, A) \<in> connected ?ps" using cAB cBA by (rule tr)
  have cBB: "(B, B) \<in> connected ?ps" using cBA cAB by (rule tr)
  have cCC: "(C, C) \<in> connected ?ps" using cCB cBC by (rule tr)
  have "edges ?ps \<union> (edges ?ps)\<inverse> \<subseteq> ?S \<times> ?S" using sub by blast
  then have "connected ?ps \<subseteq> ?S \<times> ?S" unfolding connected_def by (rule trancl_subset_Sigma)
  then have conn: "connected ?ps = ?S \<times> ?S"
    using cAB cBA cBC cCB cAC cCA cAA cBB cCC by blast
  from build_clusters_components [of ?ps path_to_urls] obtain cs
    where b: "build_clusters ?ps path_to_urls = Some (Inr cs)"
      and each: "\<forall>c\<in>set cs. members c \<noteq> [] \<and> sorted (members c) \<and> distinct (members c)
           \<and> representative c = hd (members c)
           \<and> (\<forall>x\<in>set (members c). set (members c) = {y. (x, y) \<in> connected ?ps})"
      and dc: "distinct (concat (map members cs))"
      and un: "(\<Union>c\<in>set cs. set (members c)) = {x. (x, x) \<in> connected ?ps}"
    by blast
  have all: "\<forall>c\<in>set cs. members c \<noteq> [] \<and> set (members c) = ?S"
  proof
    fix c assume c: "c \<in> set cs"
    then have ne': "members c \<noteq> []" using each by blast
    then obtain x where x: "x \<in> set (members c)" by (meson last_in_set)
    then have s: "set (members c) = {y. (x, y) \<in> connected ?ps}" using each c by blast
    then have "(x, x) \<in> connected ?ps" using x by blast
    then have "x \<in> ?S" unfolding conn by blast
    then have "set (members c) = ?S" unfolding s conn by blast
    then show "members c \<noteq> [] \<and> set (members c) = ?S" using ne' by blast
  qed
  have "(\<Union>c\<in>set cs. set (members c)) \<noteq> {}" unfolding un conn by blast
  then have "cs \<noteq> []" by auto
  with dc all obtain c where cs: "cs = [c]" using one_nonempty_class by blast
  have "sorted (members c)" "distinct (members c)" "set (members c) = ?S"
    using each all cs by simp_all
  moreover have "sorted (sort [A, B, C])" by (rule sorted_sort)
  moreover have "distinct (sort [A, B, C])" using ne by (subst distinct_sort) simp
  moreover have "set (sort [A, B, C]) = ?S" by (subst set_sort) simp
  ultimately have "members c = sort [A, B, C]"
    by (metis sorted_distinct_set_unique)
  then show ?thesis using ch b cs by blast
qed

text \<open>
  Claim C6. For every list of retained pairs \<open>build_clusters\<close> returns, and its clusters
  are the connected components of the graph of the pairs: every cluster is non-empty, the
  members of a cluster are exactly the files joined to any one of them by a chain of
  retained pairs, no file is in two clusters or twice in one, and the clusters cover
  exactly the files that occur in a pair. In particular, for three hashed files \<open>A\<close>,
  \<open>B\<close>, \<open>C\<close> in any key order with scores \<open>A-B = 95\<close>, \<open>B-C = 92\<close>, \<open>A-C = 40\<close> and
  threshold \<open>90\<close>, the clusters built from the pairs that \<open>compare_hashes\<close> retains are
  one cluster whose members are the three files.
\<close>

theorem clusters_are_components:
  "(\<exists>cs. build_clusters pairs path_to_urls = Some (Inr cs)
      \<and> (\<forall>c\<in>set cs. members c \<noteq> []
            \<and> (\<forall>x\<in>set (members c). set (members c) = {y. (x, y) \<in> connected pairs}))
      \<and> distinct (concat (map members cs))
      \<and> (\<Union>c\<in>set cs. set (members c)) = fst ` edges pairs \<union> snd ` edges pairs)
   \<and> (\<forall>A B C hA hB hC.
        distinct (map fst path_to_hash) \<and> set (map fst path_to_hash) = {A, B, C}
        \<and> A \<noteq> B \<and> B \<noteq> C \<and> A \<noteq> C
        \<and> map_of path_to_hash A = Some hA \<and> map_of path_to_hash B = Some hB
        \<and> map_of path_to_hash C = Some hC
        \<and> cmp hA hB = 95 \<and> cmp hB hA = 95 \<and> cmp hB hC = 92 \<and> cmp hC hB = 92
        \<and> cmp hA hC = 40 \<and> cmp hC hA = 40
        \<longrightarrow> (\<exists>ps c. compare_hashes cmp path_to_hash path_to_urls 90 = Inr ps
               \<and> build_clusters ps path_to_urls = Some (Inr [c])
               \<and> members c = sort [A, B, C]))"
proof (intro conjI allI impI)
  from build_clusters_components [of pairs path_to_urls] obtain cs
    where b: "build_clusters pairs path_to_urls = Some (Inr cs)"
      and each: "\<forall>c\<in>set cs. members c \<noteq> [] \<and> sorted (members c) \<and> distinct (members c)
           \<and> representative c = hd (members c)
           \<and> (\<forall>x\<in>set (members c). set (members c) = {y. (x, y) \<in> connected pairs})"
      and dc: "distinct (concat (map members cs))"
      and un: "(\<Union>c\<in>set cs. set (members c)) = {x. (x, x) \<in> connected pairs}"
    by blast
  have "{x. (x, x) \<in> connected pairs} = fst ` edges pairs \<union> snd ` edges pairs"
    using connected_refl_iff by blast
  then show "\<exists>cs. build_clusters pairs path_to_urls = Some (Inr cs)
      \<and> (\<forall>c\<in>set cs. members c \<noteq> []
            \<and> (\<forall>x\<in>set (members c). set (members c) = {y. (x, y) \<in> connected pairs}))
      \<and> distinct (concat (map members cs))
      \<and> (\<Union>c\<in>set cs. set (members c)) = fst ` edges pairs \<union> snd ` edges pairs"
    using b each dc un by auto
next
  fix A B C hA hB hC
  assume "distinct (map fst path_to_hash) \<and> set (map fst path_to_hash) = {A, B, C}
        \<and> A \<noteq> B \<and> B \<noteq> C \<and> A \<noteq> C
        \<and> map_of path_to_hash A = Some hA \<and> map_of path_to_hash B = Some hB
        \<and> map_of path_to_hash C = Some hC
        \<and> cmp hA hB = 95 \<and> cmp hB hA = 95 \<and> cmp hB hC = 92 \<and> cmp hC hB = 92
        \<and> cmp hA hC = 40 \<and> cmp hC hA = 40"
  then show "\<exists>ps c. compare_hashes cmp path_to_hash path_to_urls 90 = Inr ps
               \<and> build_clusters ps path_to_urls = Some (Inr [c])
               \<and> members c = sort [A, B, C]"
    using three_files_one_cluster [of path_to_hash A B C hA hB hC cmp path_to_urls] by blast
qed

text \<open>
  Claim C8. For every list of pairs \<open>build_clusters\<close> returns, and the representative of
  each cluster is a member of it and is less than or equal to every member in the order of
  strings: it is the lexicographically smallest path of the cluster. Being the value of a
  function of the cluster's members, it is the same on every run; a cluster with the members
  \<open>b.js\<close>, \<open>a.js\<close>, \<open>c.js\<close> has the representative \<open>a.js\<close>.
\<close>

theorem representative_smallest:
  "\<exists>cs. build_clusters pairs path_to_urls = Some (Inr cs)
     \<and> (\<forall>c\<in>set cs. representative c \<in> set (members c)
           \<and> (\<forall>m\<in>set (members c). representative c \<le> m)
           \<and> (set (members c) = {''b.js'', ''a.js'', ''c.js''} \<longrightarrow> representative c = ''a.js''))"
proof -
  from build_clusters_components [of pairs path_to_urls] obtain cs
    where b: "build_clusters pairs path_to_urls = Some (Inr cs)"
      and each: "\<forall>c\<in>set cs. members c \<noteq> [] \<and> sorted (members c) \<and> distinct (members c)
           \<and> representative c = hd (members c)
           \<and> (\<forall>x\<in>set (members c). set (members c) = {y. (x, y) \<in> connected pairs})"
    by blast
  have "\<forall>c\<in>set cs. representative c \<in> set (members c)
           \<and> (\<forall>m\<in>set (members c). representative c \<le> m)
           \<and> (set (members c) = {''b.js'', ''a.js'', ''c.js''} \<longrightarrow> representative c = ''a.js'')"
  proof
    fix c assume "c \<in> set cs"
    then have ne: "members c \<noteq> []" and so: "sorted (members c)"
      and rp: "representative c = hd (members c)"
      using each by blast+
    have 1: "representative c \<in> set (members c)" using ne rp by simp
    have 2: "\<forall>m\<in>set (members c). representative c \<le> m"
      using so rp sorted_hd_least by metis
    have 3: "set (members c) = {''b.js'', ''a.js'', ''c.js''} \<longrightarrow> representative c = ''a.js''"
    proof
      assume s: "set (members c) = {''b.js'', ''a.js'', ''c.js''}"
      then have "representative c \<le> ''a.js''" using 2 by simp
      moreover have "representative c \<in> {''b.js'', ''a.js'', ''c.js''}" using 1 s by simp
      ultimately show "representative c = ''a.js''" by auto
    qed
    show "representative c \<in> set (members c)
           \<and> (\<forall>m\<in>set (members c). representative c \<le> m)
           \<and> (set (members c) = {''b.js'', ''a.js'', ''c.js''} \<longrightarrow> representative c = ''a.js'')"
      using 1 2 3 by blast
  qed
  then show ?thesis using b by blast
qed

lemma distinct_concat_unique:
  "distinct (concat (map members cs)) \<Longrightarrow> c \<in> set cs \<Longrightarrow> c' \<in> set cs \<Longrightarrow>
   x \<in> set (members c) \<Longrightarrow> x \<in> set (members c') \<Longrightarrow> c = c'"
proof (induction cs)
  case Nil
  then show ?case by simp
next
  case (Cons a cs)
  have d: "distinct (concat (map members cs))"
    and disj: "set (members a) \<inter> (\<Union>c\<in>set cs. set (members c)) = {}"
    using Cons.prems(1) by auto
  consider "c = a" "c' = a" | "c = a" "c' \<in> set cs" | "c \<in> set cs" "c' = a"
    | "c \<in> set cs" "c' \<in> set cs"
    using Cons.prems(2,3) by auto
  then show ?case
  proof cases
    case 1
    then show ?thesis by simp
  next
    case 2
    then show ?thesis using disj Cons.prems(4,5) by blast
  next
    case 3
    then show ?thesis using disj Cons.prems(4,5) by blast
  next
    case 4
    then show ?thesis using Cons.IH [OF d] Cons.prems(4,5) by blast
  qed
qed

lemma distinct_representatives:
  "distinct (concat (map members cs)) \<Longrightarrow> \<forall>c\<in>set cs. representative c \<in> set (members c) \<Longrightarrow>
   distinct (map representative cs)"
proof (induction cs)
  case Nil
  then show ?case by simp
next
  case (Cons a cs)
  have d: "distinct (concat (map members cs))"
    and disj: "set (members a) \<inter> (\<Union>c\<in>set cs. set (members c)) = {}"
    using Cons.prems(1) by auto
  have "representative a \<notin> representative ` set cs"
  proof
    assume "representative a \<in> representative ` set cs"
    then obtain c where c: "c \<in> set cs" "representative a = representative c" by auto
    then have "representative a \<in> set (members c)" using Cons.prems(2) by simp
    moreover have "representative a \<in> set (members a)" using Cons.prems(2) by simp
    ultimately show False using disj c(1) by blast
  qed
  then show ?case using Cons.IH [OF d] Cons.prems(2) by simp
qed

text \<open>
  Claim C9. For a digest map (a dict: distinct keys) and a list of clusters as
  \<open>build_clusters\<close> produces them (each representative among its members, no file in two
  clusters; see \<open>build_clusters_well_formed\<close> below), the deduplicated list is sorted and
  without duplicates, it holds exactly the representatives of the clusters and the hashed
  files that are in no cluster, and of the members of each cluster it holds exactly one,
  the representative.
\<close>

theorem deduplicated_list_representatives:
  assumes "distinct (map fst path_to_hash)"
    and "\<forall>c\<in>set clusters. representative c \<in> set (members c)"
    and "distinct (concat (map members clusters))"
  shows "sorted (build_deduplicated_list path_to_hash clusters)
    \<and> distinct (build_deduplicated_list path_to_hash clusters)
    \<and> set (build_deduplicated_list path_to_hash clusters)
         = representative ` set clusters
           \<union> (fst ` set path_to_hash - (\<Union>c\<in>set clusters. set (members c)))
    \<and> (\<forall>c\<in>set clusters.
          set (build_deduplicated_list path_to_hash clusters) \<inter> set (members c)
            = {representative c})"
proof -
  let ?in = "\<Union>c\<in>set clusters. set (members c)"
  let ?rest = "filter (\<lambda>path. path \<notin> set (concat (map members clusters))) (sort (map fst path_to_hash))"
  let ?out = "build_deduplicated_list path_to_hash clusters"
  have out: "?out = sort (map representative clusters @ ?rest)"
    by (simp add: build_deduplicated_list_def)
  have inc: "set (concat (map members clusters)) = ?in" by simp
  have 1: "sorted ?out" unfolding out by (rule sorted_sort)
  have dr: "distinct (map representative clusters)"
    using assms(3,2) by (rule distinct_representatives)
  have reps: "representative ` set clusters \<subseteq> ?in" using assms(2) by blast
  have "distinct (map representative clusters @ ?rest)"
    using dr assms(1) reps unfolding inc by auto
  then have 2: "distinct ?out" unfolding out by (subst distinct_sort)
  have 3: "set ?out = representative ` set clusters \<union> (fst ` set path_to_hash - ?in)"
    unfolding out inc by (subst set_sort) auto
  have 4: "\<forall>c\<in>set clusters. set ?out \<inter> set (members c) = {representative c}"
  proof
    fix c assume c: "c \<in> set clusters"
    show "set ?out \<inter> set (members c) = {representative c}"
    proof (intro set_eqI iffI)
      fix x assume "x \<in> set ?out \<inter> set (members c)"
      then have xo: "x \<in> set ?out" and xc: "x \<in> set (members c)" by simp_all
      have "x \<in> ?in" using c xc by blast
      then obtain c' where c': "c' \<in> set clusters" "x = representative c'"
        using xo unfolding 3 by blast
      then have xc': "x \<in> set (members c')" using assms(2) by simp
      have "c' = c" using assms(3) c'(1) c xc' xc by (rule distinct_concat_unique)
      then show "x \<in> {representative c}" using c'(2) by simp
    next
      fix x assume "x \<in> {representative c}"
      then show "x \<in> set ?out \<inter> set (members c)" using c assms(2) unfolding 3 by simp
    qed
  qed
  show ?thesis using 1 2 3 4 by blast
qed

lemma build_clusters_well_formed:
  "\<exists>cs. build_clusters pairs path_to_urls = Some (Inr cs)
     \<and> (\<forall>c\<in>set cs. representative c \<in> set (members c))
     \<and> distinct (concat (map members cs))"
proof -
  from build_clusters_components [of pairs path_to_urls] obtain cs
    where b: "build_clusters pairs path_to_urls = Some (Inr cs)"
      and each: "\<forall>c\<in>set cs. members c \<noteq> [] \<and> sorted (members c) \<and> distinct (members c)
           \<and> representative c = hd (members c)
           \<and> (\<forall>x\<in>set (members c). set (members c) = {y. (x, y) \<in> connected pairs})"
      and dc: "distinct (concat (map members cs))"
    by blast
  have "\<forall>c\<in>set cs. representative c \<in> set (members c)" using each by simp
  then show ?thesis using b dc by blast
qed

lemma example_clusters:
  "build_clusters
     [\<lparr>file_a = ''b.js'', file_b = ''a.js'', score = 95, urls_a = [''u1''], urls_b = [''u2'']\<rparr>,
      \<lparr>file_a = ''a.js'', file_b = ''c.js'', score = 92, urls_a = [''u2''], urls_b = [''u1'', ''u3'']\<rparr>]
     (map_of [(''a.js'', [''u2'']), (''b.js'', [''u1'']), (''c.js'', [''u1'', ''u3''])])
   = Some (Inr [\<lparr>representative = ''a.js'', members = [''a.js'', ''b.js'', ''c.js''],
                  urls = [''u2'', ''u1'', ''u3'']\<rparr>])"
  by code_simp

theorem representative_smallest_witness:
  "build_clusters
     [\<lparr>file_a = ''b.js'', file_b = ''a.js'', score = 95, urls_a = [''u1''], urls_b = [''u2'']\<rparr>,
      \<lparr>file_a = ''a.js'', file_b = ''c.js'', score = 92, urls_a = [''u2''], urls_b = [''u1'', ''u3'']\<rparr>]
     (map_of [(''a.js'', [''u2'']), (''b.js'', [''u1'']), (''c.js'', [''u1'', ''u3''])])
   = Some (Inr [\<lparr>representative = ''a.js'', members = [''a.js'', ''b.js'', ''c.js''],
                  urls = [''u2'', ''u1'', ''u3'']\<rparr>])
   \<and> set [''a.js'', ''b.js'', ''c.js''] = {''b.js'', ''a.js'', ''c.js''}
   \<and> ''a.js'' \<le> ''b.js'' \<and> ''a.js'' \<le> ''c.js''"
proof -
  from representative_smallest
    [of "[\<lparr>file_a = ''b.js'', file_b = ''a.js'', score = 95, urls_a = [''u1''], urls_b = [''u2'']\<rparr>,
      \<lparr>file_a = ''a.js'', file_b = ''c.js'', score = 92, urls_a = [''u2''], urls_b = [''u1'', ''u3'']\<rparr>]"
     "map_of [(''a.js'', [''u2'']), (''b.js'', [''u1'']), (''c.js'', [''u1'', ''u3''])]"]
  have "''a.js'' \<le> ''b.js'' \<and> ''a.js'' \<le> ''c.js''"
    unfolding example_clusters by simp
  moreover have "set [''a.js'', ''b.js'', ''c.js''] = {''b.js'', ''a.js'', ''c.js''}" by auto
  ultimately show ?thesis using example_clusters by blast
qed

theorem clusters_are_components_witness:
  "distinct (map fst [(''C.js'', ''hC''), (''A.js'', ''hA''), (''B.js'', ''hB'')])
   \<and> set (map fst [(''C.js'', ''hC''), (''A.js'', ''hA''), (''B.js'', ''hB'')])
        = {''A.js'', ''B.js'', ''C.js''}
   \<and> (\<exists>ps c. compare_hashes
          (\<lambda>x y. if (x = ''hA'' \<and> y = ''hB'') \<or> (x = ''hB'' \<and> y = ''hA'') then 95
                 else if (x = ''hB'' \<and> y = ''hC'') \<or> (x = ''hC'' \<and> y = ''hB'') then 92 else 40)
          [(''C.js'', ''hC''), (''A.js'', ''hA''), (''B.js'', ''hB'')] Map.empty 90 = Inr ps
        \<and> build_clusters ps Map.empty = Some (Inr [c])
        \<and> members c = sort [''A.js'', ''B.js'', ''C.js''])"
proof -
  let ?h = "[(''C.js'', ''hC''), (''A.js'', ''hA''), (''B.js'', ''hB'')]"
  let ?cmp = "\<lambda>x y :: string. if (x = ''hA'' \<and> y = ''hB'') \<or> (x = ''hB'' \<and> y = ''hA'') then 95
                 else if (x = ''hB'' \<and> y = ''hC'') \<or> (x = ''hC'' \<and> y = ''hB'') then 92 else (40 :: int)"
  have h1: "distinct (map fst ?h)" by simp
  have h2: "set (map fst ?h) = {''A.js'', ''B.js'', ''C.js''}" by auto
  from clusters_are_components [where path_to_hash = ?h and cmp = ?cmp
      and path_to_urls = Map.empty and pairs = "[]",
      THEN conjunct2, rule_format, of "''A.js''" "''B.js''" "''C.js''" "''hA''" "''hB''" "''hC''"]
    h1 h2
  have "\<exists>ps c. compare_hashes ?cmp ?h Map.empty 90 = Inr ps
        \<and> build_clusters ps Map.empty = Some (Inr [c])
        \<and> members c = sort [''A.js'', ''B.js'', ''C.js'']"
    by simp
  then show ?thesis using h1 h2 by blast
qed

theorem deduplicated_list_representatives_witness:
  "distinct (map fst [(''3.js'', ''h3''), (''0.js'', ''h0''), (''2.js'', ''h2''), (''1.js'', ''h1'')])
   \<and> representative \<lparr>representative = ''0.js'', members = [''0.js'', ''2.js''], urls = []\<rparr>
         \<in> set (members \<lparr>representative = ''0.js'', members = [''0.js'', ''2.js''], urls = []\<rparr>)
   \<and> distinct (concat (map members
         [\<lparr>representative = ''0.js'', members = [''0.js'', ''2.js''], urls = []\<rparr>]))
   \<and> build_deduplicated_list
         [(''3.js'', ''h3''), (''0.js'', ''h0''), (''2.js'', ''h2''), (''1.js'', ''h1'')]
         [\<lparr>representative = ''0.js'', members = [''0.js'', ''2.js''], urls = []\<rparr>]
       = [''0.js'', ''1.js'', ''3.js'']
   \<and> sorted [''0.js'', ''1.js'', ''3.js''] \<and> distinct [''0.js'', ''1.js'', ''3.js'']"
proof -
  let ?h = "[(''3.js'', ''h3''), (''0.js'', ''h0''), (''2.js'', ''h2''), (''1.js'', ''h1'')]"
  let ?cs = "[\<lparr>representative = ''0.js'', members = [''0.js'', ''2.js''], urls = []\<rparr>]"
  have h1: "distinct (map fst ?h)" by simp
  have h2: "\<forall>c\<in>set ?cs. representative c \<in> set (members c)" by simp
  have h3: "distinct (concat (map members ?cs))" by simp
  have v: "build_deduplicated_list ?h ?cs = [''0.js'', ''1.js'', ''3.js'']" by code_simp
  from deduplicated_list_representatives [OF h1 h2 h3]
  have "sorted [''0.js'', ''1.js'', ''3.js''] \<and> distinct [''0.js'', ''1.js'', ''3.js'']"
    unfolding v by blast
  moreover have "representative \<lparr>representative = ''0.js'', members = [''0.js'', ''2.js''], urls = []\<rparr>
         \<in> set (members \<lparr>representative = ''0.js'', members = [''0.js'', ''2.js''], urls = []\<rparr>)"
    by simp
  ultimately show ?thesis using h1 h3 v by blast
qed

end
